theory Spec2Isabelle
  imports Main "HOL-Library.Multiset" "HOL-Library.Sublist"
begin

section \<open>JavaScript values\<close>

text \<open>
  The editor keeps block payloads (\<open>content: any\<close>) and entry values
  (\<open>Record<string, any>\<close>) as plain JavaScript values that are written with
  \<open>JSON.stringify\<close> and read back with \<open>JSON.parse\<close>. They are modelled as JSON
  trees. Numbers are the integers (floating point is not modelled), strings are lists
  of code units below 256, an object is the list of its own properties in creation
  order, and \<open>undefined\<close> is the absence of a value.
\<close>

datatype json =
    JNull
  | JBool bool
  | JNum int
  | JStr string
  | JArr "json list"
  | JObj "(string \<times> json) list"

text \<open>Number to string conversion of a non-negative integer, as in a template literal.\<close>

definition digit_char :: "nat \<Rightarrow> char" where
  "digit_char d = char_of (48 + d)"

fun show_nat :: "nat \<Rightarrow> string" where
  "show_nat n = (if n < 10 then [digit_char n] else show_nat (n div 10) @ [digit_char (n mod 10)])"

declare show_nat.simps [simp del]

section \<open>Array primitives of the host language\<close>

text \<open>\<open>Array.prototype.findIndex\<close>: the first index whose element satisfies the test, or -1.\<close>

fun findIndex :: "('a \<Rightarrow> bool) \<Rightarrow> 'a list \<Rightarrow> int" where
  "findIndex P [] = - 1"
| "findIndex P (x # xs) =
     (if P x then 0
      else if findIndex P xs = - 1 then - 1
      else findIndex P xs + 1)"

text \<open>
  \<open>Array.prototype.splice\<close> clamps its start index: a negative start counts from the
  end (not below 0), a start beyond the length is the length.
\<close>

definition spliceStart :: "int \<Rightarrow> nat \<Rightarrow> nat" where
  "spliceStart start len =
     (if start < 0 then nat (max (int len + start) 0) else min (nat start) len)"

text \<open>\<open>xs.splice(start, 0, x)\<close>: the array afterwards.\<close>

definition spliceInsert :: "int \<Rightarrow> 'a \<Rightarrow> 'a list \<Rightarrow> 'a list" where
  "spliceInsert start x xs =
     (let k = spliceStart start (length xs) in take k xs @ [x] @ drop k xs)"

text \<open>\<open>xs.splice(start, 1)\<close>: the array afterwards and the removed elements.\<close>

definition spliceRemove :: "int \<Rightarrow> 'a list \<Rightarrow> 'a list \<times> 'a list" where
  "spliceRemove start xs =
     (let k = spliceStart start (length xs)
      in (take k xs @ drop (Suc k) xs, take 1 (drop k xs)))"

section \<open>Blocks (PageEditor)\<close>

datatype block_type = Text | Heading | Image | Database | Gallery | Embed | Divider

record block =
  blockId :: string
  blockType :: block_type
  content :: json
  position :: int

datatype direction = Up | Down

text \<open>\<open>getDefaultContent\<close>; the \<open>default\<close> branch is outside the type \<open>Block['type']\<close>.\<close>

fun getDefaultContent :: "block_type \<Rightarrow> json" where
  "getDefaultContent Text = JObj [(''text'', JStr ''''), (''format'', JStr ''paragraph'')]"
| "getDefaultContent Heading = JObj [(''text'', JStr ''''), (''level'', JNum 1)]"
| "getDefaultContent Image = JObj [(''url'', JStr ''''), (''caption'', JStr ''''), (''alt'', JStr '''')]"
| "getDefaultContent Database = JObj [(''databaseId'', JStr ''''), (''viewType'', JStr ''table'')]"
| "getDefaultContent Gallery = JObj [(''assets'', JArr []), (''layout'', JStr ''grid'')]"
| "getDefaultContent Embed = JObj [(''url'', JStr ''''), (''title'', JStr ''''), (''description'', JStr '''')]"
| "getDefaultContent Divider = JObj []"

text \<open>
  The renumbering that ends every structural edit: \<open>block.position = index\<close> for each
  index (\<open>forEach\<close> in \<open>addBlock\<close>, \<open>map\<close> with a spread in the other two).
\<close>

definition reindex :: "block list \<Rightarrow> block list" where
  "reindex bs = map (\<lambda>(index, b). b\<lparr>position := int index\<rparr>) (enumerate 0 bs)"

text \<open>
  \<open>addBlock(type, position?)\<close>. The component state \<open>blocks\<close> and the clock reading
  \<open>Date.now()\<close> are explicit arguments; the result is the value given to \<open>setBlocks\<close>.
\<close>

definition newBlock :: "block_type \<Rightarrow> nat \<Rightarrow> int \<Rightarrow> block" where
  "newBlock ty now newPosition =
     \<lparr>blockId = ''block-'' @ show_nat now, blockType = ty,
      content = getDefaultContent ty, position = newPosition\<rparr>"

definition addBlock :: "block_type \<Rightarrow> int option \<Rightarrow> nat \<Rightarrow> block list \<Rightarrow> block list" where
  "addBlock ty pos now blocks =
     (let newPosition = (case pos of Some p \<Rightarrow> p | None \<Rightarrow> int (length blocks));
          updatedBlocks = spliceInsert newPosition (newBlock ty now newPosition) blocks
      in reindex updatedBlocks)"

text \<open>
  The two places that call \<open>addBlock\<close>: the control under the block at \<open>index\<close>
  (\<open>onAddBlock={(type) => addBlock(type, index + 1)}\<close>) and the menu at the end of the
  page (\<open>addBlock(type)\<close>).
\<close>

definition onAddBlock :: "nat \<Rightarrow> block_type \<Rightarrow> nat \<Rightarrow> block list \<Rightarrow> block list" where
  "onAddBlock index ty now blocks = addBlock ty (Some (int index + 1)) now blocks"

definition onAddBlockMenu :: "block_type \<Rightarrow> nat \<Rightarrow> block list \<Rightarrow> block list" where
  "onAddBlockMenu ty now blocks = addBlock ty None now blocks"

text \<open>\<open>deleteBlock(blockId)\<close>.\<close>

definition deleteBlock :: "string \<Rightarrow> block list \<Rightarrow> block list" where
  "deleteBlock bid prev = reindex (filter (\<lambda>b. blockId b \<noteq> bid) prev)"

text \<open>
  \<open>moveBlock(blockId, direction)\<close>. The two early returns hand back \<open>prev\<close> itself.
  \<open>movedBlock\<close> is the first removed element; the removed list is never empty
  there, because \<open>blockIndex\<close> is an index of \<open>prev\<close>.
\<close>

definition moveBlock :: "string \<Rightarrow> direction \<Rightarrow> block list \<Rightarrow> block list" where
  "moveBlock bid dir prev =
     (let blockIndex = findIndex (\<lambda>b. blockId b = bid) prev in
      if blockIndex = - 1 then prev
      else
        let newIndex = (if dir = Up then blockIndex - 1 else blockIndex + 1) in
        if newIndex < 0 \<or> newIndex \<ge> int (length prev) then prev
        else
          (case spliceRemove blockIndex prev of
             (newBlocks, movedBlock # _) \<Rightarrow> reindex (spliceInsert newIndex movedBlock newBlocks)
           | (newBlocks, []) \<Rightarrow> prev))"

text \<open>The position invariant of the data model: positions are 0..n-1 in array order.\<close>

definition positions_ok :: "block list \<Rightarrow> bool" where
  "positions_ok bs = (map position bs = map int [0..<length bs])"

text \<open>A structural edit, and a sequence of them run from left to right.\<close>

datatype edit =
    Insert block_type "int option" nat
  | Remove string
  | Move string direction

fun applyEdit :: "edit \<Rightarrow> block list \<Rightarrow> block list" where
  "applyEdit (Insert ty pos now) bs = addBlock ty pos now bs"
| "applyEdit (Remove bid) bs = deleteBlock bid bs"
| "applyEdit (Move bid dir) bs = moveBlock bid dir bs"

fun is_move :: "edit \<Rightarrow> bool" where
  "is_move (Move _ _) = True"
| "is_move _ = False"

definition applyEdits :: "edit list \<Rightarrow> block list \<Rightarrow> block list" where
  "applyEdits es bs = foldl (\<lambda>acc e. applyEdit e acc) bs es"

text \<open>What an edit may not touch: identifier, tag and payload of a block.\<close>

definition payload :: "block \<Rightarrow> string \<times> block_type \<times> json" where
  "payload b = (blockId b, blockType b, content b)"

section \<open>Strings of the host language\<close>

text \<open>
  \<open>String.prototype.toLowerCase\<close> on code units below 256: the ASCII capitals and the
  Latin-1 capitals (U+00C0 to U+00DE without the multiplication sign U+00D7) move up
  by 32, every other code unit stays.
\<close>

definition lower_char :: "char \<Rightarrow> char" where
  "lower_char c =
     (let n = (of_char c :: nat) in
      if (65 \<le> n \<and> n \<le> 90) \<or> (192 \<le> n \<and> n \<le> 222 \<and> n \<noteq> 215)
      then char_of (n + 32) else c)"

definition toLowerCase :: "string \<Rightarrow> string" where
  "toLowerCase s = map lower_char s"

text \<open>\<open>String.prototype.includes\<close>: the argument occurs as a contiguous part.\<close>

definition str_includes :: "string \<Rightarrow> string \<Rightarrow> bool" where
  "str_includes s q = sublist q s"

text \<open>
  \<open>String.prototype.trim\<close>: white space and line terminators below 256 are tab, line
  feed, vertical tab, form feed, carriage return, space and no-break space.
\<close>

definition is_space :: "char \<Rightarrow> bool" where
  "is_space c = ((of_char c :: nat) \<in> {9, 10, 11, 12, 13, 32, 160})"

definition trim :: "string \<Rightarrow> string" where
  "trim s = rev (dropWhile is_space (rev (dropWhile is_space s)))"

section \<open>Database properties and entries\<close>

datatype property_type =
    PText | PNumber | PDate | PSelect | PMultiSelect | PCheckbox
  | PUrl | PEmail | PPhone | PRating | PFile | PImage

text \<open>\<open>DatabaseProperty\<close>; the two optional fields are \<open>None\<close> when absent.\<close>

record property =
  propId :: string
  name :: string
  propType :: property_type
  options :: "string list option"
  required :: "bool option"

text \<open>
  \<open>Record<string, any>\<close>: the values of an entry, keyed by property name. The map
  holds the own keys of the object; a missing key reads as \<open>undefined\<close>.
\<close>

type_synonym entry_data = "string \<rightharpoonup> json"

record entry =
  entryId :: string
  databaseId :: string
  userId :: string
  data :: entry_data
  createdAt :: string
  updatedAt :: string

text \<open>\<open>moveProperty(propertyId, direction)\<close> of the database builder.\<close>

definition moveProperty :: "string \<Rightarrow> direction \<Rightarrow> property list \<Rightarrow> property list" where
  "moveProperty pid dir prev =
     (let index = findIndex (\<lambda>p. propId p = pid) prev in
      if index = - 1 then prev
      else
        let newIndex = (if dir = Up then index - 1 else index + 1) in
        if newIndex < 0 \<or> newIndex \<ge> int (length prev) then prev
        else
          (case spliceRemove index prev of
             (newProperties, movedProperty # _) \<Rightarrow> spliceInsert newIndex movedProperty newProperties
           | (newProperties, []) \<Rightarrow> prev))"

text \<open>
  \<open>PropertyEditorDialog.handleSave\<close>. The arguments are the property being edited (if
  any), the dialog's \<open>name\<close>, \<open>type\<close>, \<open>required\<close> and \<open>options\<close> state and the clock
  reading; \<open>None\<close> is the early return that saves nothing, \<open>Some\<close> carries the
  property given to \<open>onSave\<close>.
\<close>

definition PropertyEditorDialog_handleSave ::
  "property option \<Rightarrow> string \<Rightarrow> property_type \<Rightarrow> bool \<Rightarrow> string list \<Rightarrow> nat \<Rightarrow> property option" where
  "PropertyEditorDialog_handleSave prop nm ty req opts now =
     (if trim nm = [] then None
      else Some \<lparr>propId = (case prop of
                              Some p \<Rightarrow> if propId p \<noteq> [] then propId p else ''prop-'' @ show_nat now
                            | None \<Rightarrow> ''prop-'' @ show_nat now),
                  name = trim nm,
                  propType = ty,
                  options = (if ty = PSelect \<or> ty = PMultiSelect then Some opts else None),
                  required = Some req\<rparr>)"





text \<open>
  \<open>EntryEditorDialog.handleSave\<close>: the form data goes to the \<open>onSave\<close> callback as it
  is. The only use the dialog makes of \<open>required\<close> is the red asterisk after the label.
\<close>

definition EntryEditorDialog_handleSave :: "(entry_data \<Rightarrow> 'r) \<Rightarrow> entry_data \<Rightarrow> 'r" where
  "EntryEditorDialog_handleSave onSave formData = onSave formData"

definition requiredMarker :: "property \<Rightarrow> bool" where
  "requiredMarker p = (required p = Some True)"

definition requiredMarkers :: "property list \<Rightarrow> string set" where
  "requiredMarkers properties = propId ` {p \<in> set properties. requiredMarker p}"

text \<open>
  The check that the specification calls \<open>validateEntry\<close>, written from its words for
  comparison with the dialog, which has no such function: a property fails when it is
  required and its value is absent or, being a string, empty after trimming.
\<close>

definition validateEntry_spec :: "property list \<Rightarrow> entry_data \<Rightarrow> string set" where
  "validateEntry_spec schema d =
     propId ` {p \<in> set schema. required p = Some True \<and>
                (case d (name p) of
                   None \<Rightarrow> True
                 | Some (JStr s) \<Rightarrow> trim s = []
                 | Some _ \<Rightarrow> False)}"

text \<open>
  \<open>filteredEntries\<close> of the database viewer: the test applied to one entry, and the
  filter over the loaded entries.
\<close>

definition entryMatches :: "string \<Rightarrow> property list \<Rightarrow> entry \<Rightarrow> bool" where
  "entryMatches searchQuery properties e =
     (if searchQuery = [] then True
      else list_ex (\<lambda>p. case data e (name p) of
                           Some (JStr v) \<Rightarrow> str_includes (toLowerCase v) (toLowerCase searchQuery)
                         | _ \<Rightarrow> False) properties)"

definition filteredEntries :: "string \<Rightarrow> property list \<Rightarrow> entry list \<Rightarrow> entry list" where
  "filteredEntries searchQuery properties entries =
     filter (entryMatches searchQuery properties) entries"

text \<open>
  The search test in the words of the specification, for comparison with
  \<open>entryMatches\<close>: some property has a string value that contains the query, case
  ignored.
\<close>

definition someStringValueContains :: "string \<Rightarrow> property list \<Rightarrow> entry \<Rightarrow> bool" where
  "someStringValueContains q properties e =
     list_ex (\<lambda>p. case data e (name p) of
                     Some (JStr v) \<Rightarrow> sublist (toLowerCase q) (toLowerCase v)
                   | _ \<Rightarrow> False) properties"

section \<open>JSON text\<close>

text \<open>
  \<open>JSON.stringify\<close> and \<open>JSON.parse\<close> belong to the host language. The model follows
  their standard grammar on the values of type \<open>json\<close>: numbers are integers written in
  decimal (number literals with a fraction or an exponent are outside the model and
  are not accepted), and \<open>\\u\<close> escapes denote code units below 256.
\<close>

subsection \<open>Writing\<close>

definition show_int :: "int \<Rightarrow> string" where
  "show_int i = (if i < 0 then CHR ''-'' # show_nat (nat (- i)) else show_nat (nat i))"

definition hex_char :: "nat \<Rightarrow> char" where
  "hex_char d = (if d < 10 then char_of (48 + d) else char_of (87 + d))"

text \<open>
  One code unit inside a string literal: the quotation mark and the backslash are
  escaped, the control characters get their short escape or \<open>\\u00XX\<close>.
\<close>

definition quote_char :: "char \<Rightarrow> string" where
  "quote_char c =
     (if c = CHR 0x22 then [CHR 0x5C, CHR 0x22]
      else if c = CHR 0x5C then [CHR 0x5C, CHR 0x5C]
      else if c = CHR 0x08 then [CHR 0x5C, CHR ''b'']
      else if c = CHR 0x0C then [CHR 0x5C, CHR ''f'']
      else if c = CHR 0x0A then [CHR 0x5C, CHR ''n'']
      else if c = CHR 0x0D then [CHR 0x5C, CHR ''r'']
      else if c = CHR 0x09 then [CHR 0x5C, CHR ''t'']
      else if (of_char c :: nat) < 32
        then [CHR 0x5C, CHR ''u'', CHR ''0'', CHR ''0'',
              hex_char ((of_char c :: nat) div 16), hex_char ((of_char c :: nat) mod 16)]
      else [c])"

definition quote :: "string \<Rightarrow> string" where
  "quote s = CHR 0x22 # concat (map quote_char s) @ [CHR 0x22]"

fun stringify :: "json \<Rightarrow> string"
  and stringify_elements :: "json list \<Rightarrow> string"
  and stringify_members :: "(string \<times> json) list \<Rightarrow> string" where
  "stringify JNull = ''null''"
| "stringify (JBool b) = (if b then ''true'' else ''false'')"
| "stringify (JNum i) = show_int i"
| "stringify (JStr s) = quote s"
| "stringify (JArr xs) = CHR ''['' # stringify_elements xs @ '']''"
| "stringify (JObj kvs) = CHR ''{'' # stringify_members kvs @ ''}''"
| "stringify_elements [] = []"
| "stringify_elements [x] = stringify x"
| "stringify_elements (x # y # ys) = stringify x @ CHR '','' # stringify_elements (y # ys)"
| "stringify_members [] = []"
| "stringify_members [(k, v)] = quote k @ CHR '':'' # stringify v"
| "stringify_members ((k, v) # m # ms) =
     quote k @ CHR '':'' # stringify v @ CHR '','' # stringify_members (m # ms)"

definition JSON_stringify :: "json \<Rightarrow> string" where
  "JSON_stringify v = stringify v"

subsection \<open>Reading\<close>

definition is_ws :: "char \<Rightarrow> bool" where
  "is_ws c = (c = CHR 0x20 \<or> c = CHR 0x09 \<or> c = CHR 0x0A \<or> c = CHR 0x0D)"

definition skip_ws :: "string \<Rightarrow> string" where
  "skip_ws s = dropWhile is_ws s"

definition is_digit :: "char \<Rightarrow> bool" where
  "is_digit c = (48 \<le> (of_char c :: nat) \<and> (of_char c :: nat) \<le> 57)"

definition digits_value :: "string \<Rightarrow> nat" where
  "digits_value ds = foldl (\<lambda>a c. 10 * a + ((of_char c :: nat) - 48)) 0 ds"

text \<open>
  A number: an optional minus sign and digits without a leading zero. A fraction or an
  exponent behind the digits is refused.
\<close>

definition parse_number :: "string \<Rightarrow> (int \<times> string) option" where
  "parse_number s =
     (let neg = (s \<noteq> [] \<and> hd s = CHR ''-'');
          s1 = (if neg then tl s else s);
          ds = takeWhile is_digit s1;
          rest = dropWhile is_digit s1
      in if ds = [] then None
         else if hd ds = CHR ''0'' \<and> length ds > 1 then None
         else if rest \<noteq> [] \<and> (hd rest = CHR ''.'' \<or> hd rest = CHR ''e'' \<or> hd rest = CHR ''E'') then None
         else Some (if neg then - int (digits_value ds) else int (digits_value ds), rest))"

definition hex_val :: "char \<Rightarrow> nat option" where
  "hex_val c =
     (let n = (of_char c :: nat) in
      if 48 \<le> n \<and> n \<le> 57 then Some (n - 48)
      else if 97 \<le> n \<and> n \<le> 102 then Some (n - 87)
      else if 65 \<le> n \<and> n \<le> 70 then Some (n - 55)
      else None)"

definition hex4 :: "char \<Rightarrow> char \<Rightarrow> char \<Rightarrow> char \<Rightarrow> nat option" where
  "hex4 a b c d =
     (case (hex_val a, hex_val b, hex_val c, hex_val d) of
        (Some x, Some y, Some z, Some w) \<Rightarrow> Some (((x * 16 + y) * 16 + z) * 16 + w)
      | _ \<Rightarrow> None)"

definition unescape :: "char \<Rightarrow> char option" where
  "unescape e =
     (if e = CHR 0x22 then Some (CHR 0x22)
      else if e = CHR 0x5C then Some (CHR 0x5C)
      else if e = CHR ''/'' then Some (CHR ''/'')
      else if e = CHR ''b'' then Some (CHR 0x08)
      else if e = CHR ''f'' then Some (CHR 0x0C)
      else if e = CHR ''n'' then Some (CHR 0x0A)
      else if e = CHR ''r'' then Some (CHR 0x0D)
      else if e = CHR ''t'' then Some (CHR 0x09)
      else None)"

text \<open>
  The rest of a string literal behind its opening quotation mark: the decoded string
  and the text behind the closing quotation mark.
\<close>

fun parse_chars :: "string \<Rightarrow> (string \<times> string) option" where
  "parse_chars [] = None"
| "parse_chars (c # cs) =
     (if c = CHR 0x22 then Some ([], cs)
      else if c = CHR 0x5C then
        (case cs of
           [] \<Rightarrow> None
         | e # r \<Rightarrow>
             if e = CHR ''u'' then
               (case r of
                  h1 # h2 # h3 # h4 # r' \<Rightarrow>
                    (case hex4 h1 h2 h3 h4 of
                       None \<Rightarrow> None
                     | Some n \<Rightarrow>
                         if n < 256
                         then map_option (\<lambda>(s, t). (char_of n # s, t)) (parse_chars r')
                         else None)
                | _ \<Rightarrow> None)
             else
               (case unescape e of
                  None \<Rightarrow> None
                | Some d \<Rightarrow> map_option (\<lambda>(s, t). (d # s, t)) (parse_chars r)))
      else if (of_char c :: nat) < 32 then None
      else map_option (\<lambda>(s, t). (c # s, t)) (parse_chars cs))"

text \<open>
  Defining a property of an object: a key that is there already keeps its place and
  takes the new value, a new key goes to the end.
\<close>

fun setProp :: "string \<Rightarrow> json \<Rightarrow> (string \<times> json) list \<Rightarrow> (string \<times> json) list" where
  "setProp k v [] = [(k, v)]"
| "setProp k v ((k', v') # kvs) =
     (if k' = k then (k, v) # kvs else (k', v') # setProp k v kvs)"

text \<open>
  The recursive descent over values. The first argument bounds the number of nested
  calls; \<open>JSON_parse\<close> starts with more than the length of the text, and a text
  that can be read with any bound is read with this one (shown below).
\<close>

fun parse_value :: "nat \<Rightarrow> string \<Rightarrow> (json \<times> string) option"
  and parse_elements :: "nat \<Rightarrow> json list \<Rightarrow> string \<Rightarrow> (json list \<times> string) option"
  and parse_members ::
    "nat \<Rightarrow> (string \<times> json) list \<Rightarrow> string \<Rightarrow> ((string \<times> json) list \<times> string) option" where
  "parse_value 0 s = None"
| "parse_value (Suc n) s =
     (case skip_ws s of
        [] \<Rightarrow> None
      | c # cs \<Rightarrow>
          if c = CHR ''{'' then
            (case skip_ws cs of
               [] \<Rightarrow> None
             | c' # cs' \<Rightarrow>
                 if c' = CHR ''}'' then Some (JObj [], cs')
                 else map_option (\<lambda>(kvs, r). (JObj kvs, r)) (parse_members n [] (c' # cs')))
          else if c = CHR ''['' then
            (case skip_ws cs of
               [] \<Rightarrow> None
             | c' # cs' \<Rightarrow>
                 if c' = CHR '']'' then Some (JArr [], cs')
                 else map_option (\<lambda>(xs, r). (JArr xs, r)) (parse_elements n [] (c' # cs')))
          else if c = CHR 0x22 then map_option (\<lambda>(str, r). (JStr str, r)) (parse_chars cs)
          else if c = CHR ''t'' then
            (if take 3 cs = ''rue'' then Some (JBool True, drop 3 cs) else None)
          else if c = CHR ''f'' then
            (if take 4 cs = ''alse'' then Some (JBool False, drop 4 cs) else None)
          else if c = CHR ''n'' then
            (if take 3 cs = ''ull'' then Some (JNull, drop 3 cs) else None)
          else map_option (\<lambda>(i, r). (JNum i, r)) (parse_number (c # cs)))"
| "parse_elements 0 acc s = None"
| "parse_elements (Suc n) acc s =
     (case parse_value n s of
        None \<Rightarrow> None
      | Some (v, r) \<Rightarrow>
          (case skip_ws r of
             [] \<Rightarrow> None
           | c # r' \<Rightarrow>
               if c = CHR '','' then parse_elements n (acc @ [v]) r'
               else if c = CHR '']'' then Some (acc @ [v], r')
               else None))"
| "parse_members 0 acc s = None"
| "parse_members (Suc n) acc s =
     (case skip_ws s of
        [] \<Rightarrow> None
      | c # cs \<Rightarrow>
          if c \<noteq> CHR 0x22 then None
          else
            (case parse_chars cs of
               None \<Rightarrow> None
             | Some (k, r) \<Rightarrow>
                 (case skip_ws r of
                    [] \<Rightarrow> None
                  | c2 # r2 \<Rightarrow>
                      if c2 \<noteq> CHR '':'' then None
                      else
                        (case parse_value n r2 of
                           None \<Rightarrow> None
                         | Some (v, r3) \<Rightarrow>
                             (case skip_ws r3 of
                                [] \<Rightarrow> None
                              | c3 # r4 \<Rightarrow>
                                  if c3 = CHR '','' then parse_members n (setProp k v acc) r4
                                  else if c3 = CHR ''}'' then Some (setProp k v acc, r4)
                                  else None)))))"

text \<open>
  \<open>JSON.parse(text)\<close> on the texts of the model. \<open>None\<close> stands for the
  \<open>SyntaxError\<close>, and it is also the answer for a text outside the model (a number
  with a fraction or an exponent, an escape of a code unit above 255), about which
  the model says nothing.
\<close>

definition JSON_parse :: "string \<Rightarrow> json option" where
  "JSON_parse s =
     (case parse_value (Suc (length s)) s of
        None \<Rightarrow> None
      | Some (v, r) \<Rightarrow> if skip_ws r = [] then Some v else None)"

text \<open>An object of the host language has every key once.\<close>

fun wf_json :: "json \<Rightarrow> bool"
  and wf_elements :: "json list \<Rightarrow> bool"
  and wf_members :: "(string \<times> json) list \<Rightarrow> bool" where
  "wf_json (JArr xs) = wf_elements xs"
| "wf_json (JObj kvs) = (distinct (map fst kvs) \<and> wf_members kvs)"
| "wf_json _ = True"
| "wf_elements [] = True"
| "wf_elements (x # xs) = (wf_json x \<and> wf_elements xs)"
| "wf_members [] = True"
| "wf_members ((k, v) # kvs) = (wf_json v \<and> wf_members kvs)"

section \<open>Saving and loading a page\<close>

text \<open>The tag of a block as the string that the type \<open>Block['type']\<close> lists.\<close>

fun type_name :: "block_type \<Rightarrow> string" where
  "type_name Text = ''text''"
| "type_name Heading = ''heading''"
| "type_name Image = ''image''"
| "type_name Database = ''database''"
| "type_name Gallery = ''gallery''"
| "type_name Embed = ''embed''"
| "type_name Divider = ''divider''"

text \<open>
  A block as the object it is in memory, and the way back through its four fields. The
  key order is the one \<open>addBlock\<close> creates blocks with.
\<close>

definition block_to_json :: "block \<Rightarrow> json" where
  "block_to_json b =
     JObj [(''id'', JStr (blockId b)), (''type'', JStr (type_name (blockType b))),
           (''position'', JNum (position b)), (''content'', content b)]"

definition type_of_name :: "string \<Rightarrow> block_type option" where
  "type_of_name s =
     (if s = ''text'' then Some Text
      else if s = ''heading'' then Some Heading
      else if s = ''image'' then Some Image
      else if s = ''database'' then Some Database
      else if s = ''gallery'' then Some Gallery
      else if s = ''embed'' then Some Embed
      else if s = ''divider'' then Some Divider
      else None)"

definition block_of_json :: "json \<Rightarrow> block option" where
  "block_of_json v =
     (case v of
        JObj kvs \<Rightarrow>
          (case (map_of kvs ''id'', map_of kvs ''type'', map_of kvs ''position'', map_of kvs ''content'') of
             (Some (JStr i), Some (JStr t), Some (JNum p), Some c) \<Rightarrow>
               (case type_of_name t of
                  Some ty \<Rightarrow> Some \<lparr>blockId = i, blockType = ty, content = c, position = p\<rparr>
                | None \<Rightarrow> None)
           | _ \<Rightarrow> None)
      | _ \<Rightarrow> None)"

text \<open>\<open>PageEditor.handleSave\<close>: the \<open>content\<close> written to the page.\<close>

definition PageEditor_handleSave :: "block list \<Rightarrow> string" where
  "PageEditor_handleSave blocks = JSON_stringify (JArr (map block_to_json blocks))"

text \<open>
  \<open>loadPageData\<close>: the blocks the editor holds after loading. \<open>JSON.parse\<close> is a
  function of the host and is passed in as \<open>parse\<close> (\<open>None\<close> is its \<open>SyntaxError\<close>).
  \<open>pageContent\<close> is \<open>page.content\<close> (\<open>None\<close> for \<open>null\<close>). The \<open>try\<close> block also awaits
  the databases and assets of the project; \<open>loadThrows\<close> says that one of these calls
  throws, which ends in the same \<open>catch\<close> as a \<open>SyntaxError\<close>. The parsed array is
  taken as it is, without a look at its elements. \<open>fallbackBlock\<close> is the object
  literal of the \<open>catch\<close> branch, its keys in the order of the source.
\<close>

definition fallbackBlock :: "string \<Rightarrow> json" where
  "fallbackBlock txt =
     JObj [(''id'', JStr ''block-1''), (''type'', JStr ''text''),
           (''content'', JObj [(''text'', JStr txt), (''format'', JStr ''paragraph'')]),
           (''position'', JNum 0)]"

definition loadPageData ::
  "(string \<Rightarrow> json option) \<Rightarrow> string option \<Rightarrow> bool \<Rightarrow> json list" where
  "loadPageData parse pageContent loadThrows =
     (let raw = (case pageContent of None \<Rightarrow> [] | Some s \<Rightarrow> s) in
      case (if raw = [] then Some (JArr []) else parse raw) of
        None \<Rightarrow> [fallbackBlock raw]
      | Some parsedBlocks \<Rightarrow>
          if loadThrows then [fallbackBlock raw]
          else (case parsedBlocks of JArr bs \<Rightarrow> bs | _ \<Rightarrow> []))"

definition valid_blocks :: "block list \<Rightarrow> bool" where
  "valid_blocks bs = list_all (\<lambda>b. wf_json (content b)) bs"

text \<open>
  Two notions for the proofs about JSON text: what may follow a number, and what a value
  may start with.
\<close>

definition number_end :: "string \<Rightarrow> bool" where
  "number_end rest = (rest = [] \<or> hd rest = CHR '','' \<or> hd rest = CHR '']'' \<or> hd rest = CHR ''}'')"

definition value_start :: "char \<Rightarrow> bool" where
  "value_start c = (\<not> is_ws c \<and> c \<noteq> CHR '']'' \<and> c \<noteq> CHR ''}'')"

section \<open>Sample data\<close>

definition blkA :: block where
  "blkA = \<lparr>blockId = ''a'', blockType = Text, content = getDefaultContent Text, position = 0\<rparr>"

definition blkB :: block where
  "blkB = \<lparr>blockId = ''b'', blockType = Heading, content = getDefaultContent Heading, position = 1\<rparr>"

definition propA :: property where
  "propA = \<lparr>propId = ''p1'', name = ''Title'', propType = PText, options = None, required = Some True\<rparr>"

definition propB :: property where
  "propB = \<lparr>propId = ''p2'', name = ''Done'', propType = PCheckbox, options = None, required = None\<rparr>"

definition propName :: property where
  "propName = \<lparr>propId = ''p3'', name = ''name'', propType = PText, options = None, required = None\<rparr>"

definition mkEntry :: "string \<Rightarrow> entry_data \<Rightarrow> entry" where
  "mkEntry i d = \<lparr>entryId = i, databaseId = ''db-1'', userId = ''u-1'', data = d,
                  createdAt = ''2024-01-01'', updatedAt = ''2024-01-01''\<rparr>"

definition entryApple :: entry where
  "entryApple = mkEntry ''entry-1'' [''name'' \<mapsto> JStr ''Apple'']"

definition entryBanana :: entry where
  "entryBanana = mkEntry ''entry-2'' [''name'' \<mapsto> JStr ''Banana'']"

definition entryDone :: entry where
  "entryDone = mkEntry ''entry-3'' [''Done'' \<mapsto> JBool True]"

definition propA' :: property where
  "propA' = \<lparr>propId = ''p1'', name = ''Other'', propType = PText, options = None, required = None\<rparr>"

definition twinBlocks :: "block list" where
  "twinBlocks = applyEdits [Insert Text None 5, Insert Heading None 5] []"


section \<open>Facts about the array primitives\<close>

lemma findIndex_ge: "- 1 \<le> findIndex P xs"
  by (induction xs) auto

lemma findIndex_lt: "findIndex P xs < int (length xs)"
  by (induction xs) auto

lemma findIndex_none: "findIndex P xs = - 1 \<longleftrightarrow> (\<forall>x \<in> set xs. \<not> P x)"
proof (induction xs)
  case Nil
  then show ?case by simp
next
  case (Cons x xs)
  have "- 1 \<le> findIndex P xs" by (rule findIndex_ge)
  with Cons show ?case by auto
qed

lemma findIndex_first: "P (hd xs) \<Longrightarrow> xs \<noteq> [] \<Longrightarrow> findIndex P xs = 0"
  by (cases xs) auto

lemma findIndex_last:
  assumes "xs \<noteq> []" "P (last xs)" "\<forall>x \<in> set (butlast xs). \<not> P x"
  shows "findIndex P xs = int (length xs) - 1"
  using assms
proof (induction xs)
  case Nil
  then show ?case by simp
next
  case (Cons x xs)
  show ?case
  proof (cases "xs = []")
    case True
    with Cons.prems show ?thesis by simp
  next
    case False
    with Cons have "findIndex P xs = int (length xs) - 1" by simp
    moreover from False Cons.prems have "\<not> P x" by simp
    moreover from False have "0 < length xs" by simp
    ultimately show ?thesis by auto
  qed
qed

lemma spliceStart_inside: "0 \<le> i \<Longrightarrow> i \<le> int n \<Longrightarrow> spliceStart i n = nat i"
  by (auto simp: spliceStart_def min_def)

lemma spliceRemove_valid:
  "0 \<le> i \<Longrightarrow> i < int (length xs) \<Longrightarrow>
   spliceRemove i xs = (take (nat i) xs @ drop (Suc (nat i)) xs, [xs ! nat i])"
  by (simp add: spliceRemove_def spliceStart_def Let_def min_def take_Suc_conv_app_nth)

lemma mset_spliceInsert: "mset (spliceInsert k x xs) = add_mset x (mset xs)"
proof -
  have "mset (take n xs) + mset (drop n xs) = mset xs" for n
    by (metis append_take_drop_id mset_append)
  then show ?thesis by (simp add: spliceInsert_def Let_def)
qed

lemma mset_remove_nth:
  "i < length xs \<Longrightarrow> add_mset (xs ! i) (mset (take i xs @ drop (Suc i) xs)) = mset xs"
  by (metis add_mset_add_single append_take_drop_id id_take_nth_drop mset.simps(2) mset_append
      union_mset_add_mset_right)

lemma distinct_last_notin_butlast:
  "xs \<noteq> [] \<Longrightarrow> distinct (map f xs) \<Longrightarrow> f (last xs) \<notin> f ` set (butlast xs)"
proof -
  assume "xs \<noteq> []" and d: "distinct (map f xs)"
  then have "xs = butlast xs @ [last xs]" by simp
  then have "distinct (map f (butlast xs) @ [f (last xs)])"
    using d by (metis list.simps(8,9) map_append)
  then show ?thesis by simp
qed

section \<open>Renumbering\<close>

lemma length_reindex: "length (reindex bs) = length bs"
  by (simp add: reindex_def)

lemma nth_reindex: "i < length bs \<Longrightarrow> reindex bs ! i = (bs ! i)\<lparr>position := int i\<rparr>"
  by (simp add: reindex_def nth_enumerate_eq)

lemma payload_reindex: "map payload (reindex bs) = map payload bs"
  by (rule nth_equalityI) (simp_all add: length_reindex nth_reindex payload_def)

lemma positions_ok_reindex: "positions_ok (reindex bs)"
  unfolding positions_ok_def
  by (rule nth_equalityI) (simp_all add: length_reindex nth_reindex)

section \<open>Moving a block\<close>

text \<open>
  Either \<open>moveBlock\<close> returns its argument, or it takes the block at a valid index out,
  puts it back at another valid index and renumbers.
\<close>

lemma moveBlock_cases:
  "moveBlock bid dir bs = bs \<or>
   (\<exists>i j. i < length bs \<and> j < length bs \<and>
      moveBlock bid dir bs = reindex (spliceInsert (int j) (bs ! i) (take i bs @ drop (Suc i) bs)))"
proof -
  define k where "k = findIndex (\<lambda>b. blockId b = bid) bs"
  define n where "n = (if dir = Up then k - 1 else k + 1)"
  show ?thesis
  proof (cases "k = - 1 \<or> n < 0 \<or> n \<ge> int (length bs)")
    case True
    then have "moveBlock bid dir bs = bs"
      by (auto simp: moveBlock_def Let_def k_def n_def)
    then show ?thesis by simp
  next
    case False
    have "- 1 \<le> k" "k < int (length bs)"
      unfolding k_def by (rule findIndex_ge, rule findIndex_lt)
    with False have k: "0 \<le> k" "k < int (length bs)" and n: "0 \<le> n" "n < int (length bs)"
      by auto
    have rm: "spliceRemove k bs = (take (nat k) bs @ drop (Suc (nat k)) bs, [bs ! nat k])"
      using k by (rule spliceRemove_valid)
    have "moveBlock bid dir bs =
        reindex (spliceInsert n (bs ! nat k) (take (nat k) bs @ drop (Suc (nat k)) bs))"
      using False rm by (simp add: moveBlock_def Let_def k_def[symmetric] n_def[symmetric])
    moreover have "n = int (nat n)" using n by simp
    ultimately have "nat k < length bs \<and> nat n < length bs \<and>
        moveBlock bid dir bs =
        reindex (spliceInsert (int (nat n)) (bs ! nat k) (take (nat k) bs @ drop (Suc (nat k)) bs))"
      using k n by (simp add: nat_less_iff)
    then show ?thesis by blast
  qed
qed

lemma moveBlock_absent: "bid \<notin> blockId ` set bs \<Longrightarrow> moveBlock bid dir bs = bs"
proof -
  assume "bid \<notin> blockId ` set bs"
  then have "findIndex (\<lambda>b. blockId b = bid) bs = - 1"
    by (auto simp: findIndex_none)
  then show ?thesis by (simp add: moveBlock_def)
qed

lemma mset_payload_moveBlock:
  "mset (map payload (moveBlock bid dir bs)) = mset (map payload bs)"
proof -
  from moveBlock_cases [of bid dir bs] show ?thesis
  proof
    assume "moveBlock bid dir bs = bs"
    then show ?thesis by simp
  next
    assume "\<exists>i j. i < length bs \<and> j < length bs \<and>
      moveBlock bid dir bs = reindex (spliceInsert (int j) (bs ! i) (take i bs @ drop (Suc i) bs))"
    then obtain i j where i: "i < length bs"
      and m: "moveBlock bid dir bs = reindex (spliceInsert (int j) (bs ! i) (take i bs @ drop (Suc i) bs))"
      by blast
    have "mset (map payload (moveBlock bid dir bs))
        = image_mset payload (mset (spliceInsert (int j) (bs ! i) (take i bs @ drop (Suc i) bs)))"
      by (simp add: m payload_reindex)
    also have "\<dots> = image_mset payload (add_mset (bs ! i) (mset (take i bs @ drop (Suc i) bs)))"
      by (simp only: mset_spliceInsert)
    also have "\<dots> = image_mset payload (mset bs)"
      using i by (simp only: mset_remove_nth)
    finally show ?thesis by simp
  qed
qed

lemma positions_ok_moveBlock:
  "positions_ok bs \<or> moveBlock bid dir bs \<noteq> bs \<Longrightarrow> positions_ok (moveBlock bid dir bs)"
  using moveBlock_cases [of bid dir bs] positions_ok_reindex by auto

lemma moveBlock_first_up: "bs \<noteq> [] \<Longrightarrow> moveBlock (blockId (hd bs)) Up bs = bs"
proof -
  assume "bs \<noteq> []"
  then have "findIndex (\<lambda>b. blockId b = blockId (hd bs)) bs = 0"
    by (simp add: findIndex_first)
  then show ?thesis by (simp add: moveBlock_def)
qed

lemma moveBlock_last_down:
  assumes "bs \<noteq> []" "blockId (last bs) \<notin> blockId ` set (butlast bs)"
  shows "moveBlock (blockId (last bs)) Down bs = bs"
proof -
  have "findIndex (\<lambda>b. blockId b = blockId (last bs)) bs = int (length bs) - 1"
  proof (rule findIndex_last)
    show "\<forall>x\<in>set (butlast bs). blockId x \<noteq> blockId (last bs)"
      using assms(2) by (metis imageI)
  qed (use assms in simp_all)
  then show ?thesis by (simp add: moveBlock_def Let_def)
qed

section \<open>Moving a property\<close>

lemma moveProperty_first_up: "ps \<noteq> [] \<Longrightarrow> moveProperty (propId (hd ps)) Up ps = ps"
proof -
  assume "ps \<noteq> []"
  then have "findIndex (\<lambda>p. propId p = propId (hd ps)) ps = 0"
    by (simp add: findIndex_first)
  then show ?thesis by (simp add: moveProperty_def)
qed

lemma moveProperty_last_down:
  assumes "ps \<noteq> []" "propId (last ps) \<notin> propId ` set (butlast ps)"
  shows "moveProperty (propId (last ps)) Down ps = ps"
proof -
  have "findIndex (\<lambda>p. propId p = propId (last ps)) ps = int (length ps) - 1"
  proof (rule findIndex_last)
    show "\<forall>x\<in>set (butlast ps). propId x \<noteq> propId (last ps)"
      using assms(2) by (metis imageI)
  qed (use assms in simp_all)
  then show ?thesis by (simp add: moveProperty_def Let_def)
qed

section \<open>Sequences of edits\<close>

lemma applyEdits_snoc: "applyEdits (es @ [e]) bs = applyEdit e (applyEdits es bs)"
  by (simp add: applyEdits_def)

lemma positions_ok_addBlock: "positions_ok (addBlock ty pos now bs)"
  by (simp add: addBlock_def Let_def positions_ok_reindex)

lemma positions_ok_deleteBlock: "positions_ok (deleteBlock bid bs)"
  by (simp add: deleteBlock_def positions_ok_reindex)

lemma positions_ok_applyEdits:
  "positions_ok bs \<or> (\<exists>e \<in> set es. \<not> is_move e) \<Longrightarrow> positions_ok (applyEdits es bs)"
proof (induction es rule: rev_induct)
  case Nil
  then show ?case by (simp add: applyEdits_def)
next
  case (snoc e es)
  show ?case
  proof (cases e)
    case (Insert ty pos now)
    then show ?thesis by (simp add: applyEdits_snoc positions_ok_addBlock)
  next
    case (Remove bid)
    then show ?thesis by (simp add: applyEdits_snoc positions_ok_deleteBlock)
  next
    case (Move bid dir)
    with snoc.prems have "positions_ok bs \<or> (\<exists>e \<in> set es. \<not> is_move e)" by auto
    then have "positions_ok (applyEdits es bs)" by (rule snoc.IH)
    then show ?thesis using Move by (simp add: applyEdits_snoc positions_ok_moveBlock)
  qed
qed

section \<open>Adding a block\<close>

lemma length_addBlock: "length (addBlock ty pos now bs) = Suc (length bs)"
  by (simp add: addBlock_def Let_def length_reindex spliceInsert_def)

lemma addBlock_at_end:
  "addBlock ty None now bs = reindex (bs @ [newBlock ty now (int (length bs))])"
  by (simp add: addBlock_def Let_def spliceInsert_def spliceStart_def)

lemma addBlock_at_index:
  "0 \<le> p \<Longrightarrow> p \<le> int (length bs) \<Longrightarrow>
   addBlock ty (Some p) now bs = reindex (take (nat p) bs @ [newBlock ty now p] @ drop (nat p) bs)"
  by (simp add: addBlock_def Let_def spliceInsert_def spliceStart_inside)

lemma onAddBlock_after:
  "index < length bs \<Longrightarrow>
   onAddBlock index ty now bs =
     reindex (take (Suc index) bs @ [newBlock ty now (int index + 1)] @ drop (Suc index) bs)"
proof -
  assume "index < length bs"
  then have "addBlock ty (Some (int index + 1)) now bs =
      reindex (take (nat (int index + 1)) bs @ [newBlock ty now (int index + 1)]
                 @ drop (nat (int index + 1)) bs)"
    by (intro addBlock_at_index) simp_all
  moreover have "nat (int index + 1) = Suc index" by simp
  ultimately show ?thesis by (simp only: onAddBlock_def)
qed

section \<open>The block sequence editor\<close>

text \<open>
  C10. \<open>moveBlock\<close> keeps the blocks: for every list, identifier and direction the
  result holds the same identifier, tag and payload triples as the argument, each as
  often as before, and has the same length; only the order and the \<open>position\<close> fields
  can differ. An identifier that no block of the list carries gives the list back.
\<close>

theorem moveBlock_frame:
  "mset (map payload (moveBlock bid dir bs)) = mset (map payload bs) \<and>
   length (moveBlock bid dir bs) = length bs \<and>
   (bid \<notin> blockId ` set bs \<longrightarrow> moveBlock bid dir bs = bs)"
proof -
  have "size (mset (map payload (moveBlock bid dir bs))) = size (mset (map payload bs))"
    by (simp only: mset_payload_moveBlock)
  then have "length (moveBlock bid dir bs) = length bs" by simp
  then show ?thesis
    using mset_payload_moveBlock moveBlock_absent by blast
qed

theorem moveBlock_frame_witness:
  "''zz'' \<notin> blockId ` set [blkA, blkB] \<and> moveBlock ''zz'' Up [blkA, blkB] = [blkA, blkB] \<and>
   mset (map payload (moveBlock ''b'' Up [blkA, blkB])) = mset (map payload [blkA, blkB])"
  using moveBlock_frame [of "''zz''" Up "[blkA, blkB]"] moveBlock_frame [of "''b''" Up "[blkA, blkB]"]
  by (simp add: blkA_def blkB_def)

text \<open>
  C6. Boundaries. Moving the first element of a non-empty list up gives the list back
  unchanged. Moving the last element down gives the list back unchanged when the
  identifiers of the list are pairwise distinct. \<open>moveBlock\<close> on blocks and
  \<open>moveProperty\<close> on the properties of a schema behave alike. Both look the element
  up by the first index that carries the identifier, so an identifier that occurs
  twice denotes its first occurrence.
\<close>

theorem move_boundary_noop:
  "(bs \<noteq> [] \<longrightarrow> moveBlock (blockId (hd bs)) Up bs = bs) \<and>
   (bs \<noteq> [] \<and> distinct (map blockId bs) \<longrightarrow> moveBlock (blockId (last bs)) Down bs = bs) \<and>
   (ps \<noteq> [] \<longrightarrow> moveProperty (propId (hd ps)) Up ps = ps) \<and>
   (ps \<noteq> [] \<and> distinct (map propId ps) \<longrightarrow> moveProperty (propId (last ps)) Down ps = ps)"
proof (intro conjI impI)
  assume "bs \<noteq> []"
  then show "moveBlock (blockId (hd bs)) Up bs = bs"
    by (rule moveBlock_first_up)
next
  assume a: "bs \<noteq> [] \<and> distinct (map blockId bs)"
  then have "blockId (last bs) \<notin> blockId ` set (butlast bs)"
    by (simp add: distinct_last_notin_butlast)
  with a show "moveBlock (blockId (last bs)) Down bs = bs"
    by (simp add: moveBlock_last_down)
next
  assume "ps \<noteq> []"
  then show "moveProperty (propId (hd ps)) Up ps = ps"
    by (rule moveProperty_first_up)
next
  assume a: "ps \<noteq> [] \<and> distinct (map propId ps)"
  then have "propId (last ps) \<notin> propId ` set (butlast ps)"
    by (simp add: distinct_last_notin_butlast)
  with a show "moveProperty (propId (last ps)) Down ps = ps"
    by (simp add: moveProperty_last_down)
qed

theorem move_boundary_noop_witness:
  "[blkA, blkB] \<noteq> [] \<and> distinct (map blockId [blkA, blkB]) \<and>
   moveBlock ''a'' Up [blkA, blkB] = [blkA, blkB] \<and>
   moveBlock ''b'' Down [blkA, blkB] = [blkA, blkB] \<and>
   [propA, propB] \<noteq> [] \<and> distinct (map propId [propA, propB]) \<and>
   moveProperty ''p1'' Up [propA, propB] = [propA, propB] \<and>
   moveProperty ''p2'' Down [propA, propB] = [propA, propB]"
  using move_boundary_noop [of "[blkA, blkB]" "[propA, propB]"]
  by (simp add: blkA_def blkB_def propA_def propB_def)

text \<open>
  Without distinct identifiers the last element is not always the one that is found.
  Two blocks added at the same clock reading share the identifier \<open>block-5\<close>; moving
  the identifier of the last one down moves the first one, and the two blocks change
  places. Two properties with one identifier behave the same way.
\<close>

theorem move_last_down_counterexample:
  "map blockType twinBlocks = [Text, Heading] \<and>
   blockId (last twinBlocks) = ''block-5'' \<and>
   map blockType (moveBlock (blockId (last twinBlocks)) Down twinBlocks) = [Heading, Text] \<and>
   map name (moveProperty (propId (last [propA, propA'])) Down [propA, propA']) = [''Other'', ''Title'']"
  by code_simp

text \<open>
  C1. The position invariant. From a block list whose positions are 0..n-1 in array
  order, every sequence of \<open>addBlock\<close>, \<open>deleteBlock\<close> and \<open>moveBlock\<close> ends in a
  list whose positions are 0..n'-1 in array order, n' being the new length. From an
  arbitrary list the same holds as soon as the sequence contains an \<open>addBlock\<close> or a
  \<open>deleteBlock\<close>, since these two renumber whatever list they are given. \<open>moveBlock\<close>
  renumbers when it moves a block and gives its argument back, positions untouched,
  at a boundary and for an unknown identifier.
\<close>

theorem positions_after_edits:
  "(positions_ok bs \<or> (\<exists>e \<in> set es. \<not> is_move e) \<longrightarrow> positions_ok (applyEdits es bs)) \<and>
   positions_ok (addBlock ty pos now bs) \<and>
   positions_ok (deleteBlock bid bs) \<and>
   (positions_ok bs \<or> moveBlock bid dir bs \<noteq> bs \<longrightarrow> positions_ok (moveBlock bid dir bs))"
  using positions_ok_applyEdits [of bs es] positions_ok_addBlock positions_ok_deleteBlock
    positions_ok_moveBlock [of bs bid dir]
  by blast

theorem positions_after_edits_witness:
  "positions_ok [blkA, blkB] \<and>
   positions_ok (applyEdits [Insert Image (Some 1) 7, Move ''a'' Down, Remove ''b'', Move ''a'' Down]
                   [blkA, blkB]) \<and>
   map blockId (applyEdits [Insert Image (Some 1) 7, Move ''a'' Down, Remove ''b'', Move ''a'' Down]
                   [blkA, blkB]) = [''block-7'', ''a'']"
proof -
  have ok: "positions_ok [blkA, blkB]"
    by (simp add: positions_ok_def blkA_def blkB_def)
  have ids: "map blockId (applyEdits [Insert Image (Some 1) 7, Move ''a'' Down, Remove ''b'', Move ''a'' Down]
                   [blkA, blkB]) = [''block-7'', ''a'']"
    by code_simp
  from ok positions_after_edits
    [of "[blkA, blkB]" "[Insert Image (Some 1) 7, Move ''a'' Down, Remove ''b'', Move ''a'' Down]"]
  show ?thesis using ids by blast
qed

text \<open>
  The early returns of \<open>moveBlock\<close> leave the positions as they are. A list with one
  block at position 3, as \<open>loadPageData\<close> takes it from stored content without
  renumbering, still has position 3 after the block was moved up.
\<close>

theorem positions_noop_move_counterexample:
  "applyEdits [Move ''a'' Up] [blkA\<lparr>position := 3\<rparr>] = [blkA\<lparr>position := 3\<rparr>] \<and>
   map position (applyEdits [Move ''a'' Up] [blkA\<lparr>position := 3\<rparr>]) = [3] \<and>
   \<not> positions_ok (applyEdits [Move ''a'' Up] [blkA\<lparr>position := 3\<rparr>]) \<and>
   map block_of_json (loadPageData JSON_parse (Some (PageEditor_handleSave [blkA\<lparr>position := 3\<rparr>])) False) =
     [Some (blkA\<lparr>position := 3\<rparr>)]"
  by code_simp

text \<open>
  C5. Adding a block. The editor adds a block in two ways: the control under the block
  at \<open>index\<close> calls \<open>addBlock(type, index + 1)\<close>, the menu at the end of the page
  calls \<open>addBlock(type)\<close>. Either way the new block has the content
  \<open>getDefaultContent(type)\<close> (a heading gets an empty text and level 1). From the
  control it stands right after the block at \<open>index\<close>, with the blocks before and
  after it in their order; from the menu it stands at the end. The result is renumbered
  to 0..n-1 and one longer. \<open>getDefaultContent\<close> gives an object for each of the seven
  tags, so no tag makes the call fail.
\<close>

theorem insert_after_position:
  "(index < length bs \<longrightarrow>
      onAddBlock index ty now bs =
        reindex (take (Suc index) bs @ [newBlock ty now (int index + 1)] @ drop (Suc index) bs) \<and>
      payload (onAddBlock index ty now bs ! index) = payload (bs ! index) \<and>
      payload (onAddBlock index ty now bs ! Suc index) =
        (''block-'' @ show_nat now, ty, getDefaultContent ty) \<and>
      map payload (take (Suc index) (onAddBlock index ty now bs)) = map payload (take (Suc index) bs) \<and>
      map payload (drop (Suc (Suc index)) (onAddBlock index ty now bs)) =
        map payload (drop (Suc index) bs)) \<and>
   onAddBlockMenu ty now bs = reindex (bs @ [newBlock ty now (int (length bs))]) \<and>
   map payload (onAddBlockMenu ty now bs) =
     map payload bs @ [(''block-'' @ show_nat now, ty, getDefaultContent ty)] \<and>
   positions_ok (onAddBlock index ty now bs) \<and>
   positions_ok (onAddBlockMenu ty now bs) \<and>
   length (onAddBlock index ty now bs) = Suc (length bs) \<and>
   length (onAddBlockMenu ty now bs) = Suc (length bs) \<and>
   (\<exists>fields. getDefaultContent ty = JObj fields) \<and>
   getDefaultContent Heading = JObj [(''text'', JStr ''''), (''level'', JNum 1)]"
proof -
  have menu: "onAddBlockMenu ty now bs = reindex (bs @ [newBlock ty now (int (length bs))])"
    by (simp add: onAddBlockMenu_def addBlock_at_end)
  have pmenu: "map payload (onAddBlockMenu ty now bs) =
      map payload bs @ [(''block-'' @ show_nat now, ty, getDefaultContent ty)]"
    by (simp add: menu payload_reindex) (simp add: payload_def newBlock_def)
  have ok: "positions_ok (onAddBlock index ty now bs)" "positions_ok (onAddBlockMenu ty now bs)"
    "length (onAddBlock index ty now bs) = Suc (length bs)"
    "length (onAddBlockMenu ty now bs) = Suc (length bs)"
    by (simp_all add: onAddBlock_def onAddBlockMenu_def positions_ok_addBlock length_addBlock)
  have obj: "\<exists>fields. getDefaultContent ty = JObj fields"
    by (cases ty) simp_all
  have after: "onAddBlock index ty now bs =
        reindex (take (Suc index) bs @ [newBlock ty now (int index + 1)] @ drop (Suc index) bs) \<and>
      payload (onAddBlock index ty now bs ! index) = payload (bs ! index) \<and>
      payload (onAddBlock index ty now bs ! Suc index) =
        (''block-'' @ show_nat now, ty, getDefaultContent ty) \<and>
      map payload (take (Suc index) (onAddBlock index ty now bs)) = map payload (take (Suc index) bs) \<and>
      map payload (drop (Suc (Suc index)) (onAddBlock index ty now bs)) =
        map payload (drop (Suc index) bs)"
    if i: "index < length bs"
  proof -
    let ?new = "newBlock ty now (int index + 1)"
    let ?xs = "take (Suc index) bs @ [?new] @ drop (Suc index) bs"
    have eq: "onAddBlock index ty now bs = reindex ?xs"
      using i by (rule onAddBlock_after)
    have mp: "map payload (onAddBlock index ty now bs) =
        map payload (take (Suc index) bs) @ [payload ?new] @ map payload (drop (Suc index) bs)"
      by (simp add: eq payload_reindex)
    have len: "length (map payload (take (Suc index) bs)) = Suc index"
      using i by simp
    have n1: "map payload (onAddBlock index ty now bs) ! index = payload (bs ! index)"
      using i by (simp add: mp nth_append)
    have n2: "map payload (onAddBlock index ty now bs) ! Suc index = payload ?new"
      using i by (simp add: mp nth_append)
    have t: "take (Suc index) (map payload (onAddBlock index ty now bs)) =
        map payload (take (Suc index) bs)"
      using len by (simp add: mp)
    have d: "drop (Suc (Suc index)) (map payload (onAddBlock index ty now bs)) =
        map payload (drop (Suc index) bs)"
      using len by (simp add: mp)
    have l: "index < length (onAddBlock index ty now bs)" "Suc index < length (onAddBlock index ty now bs)"
      using i ok(3) by simp_all
    from n1 n2 l have "payload (onAddBlock index ty now bs ! index) = payload (bs ! index)"
      "payload (onAddBlock index ty now bs ! Suc index) = payload ?new"
      by simp_all
    moreover have "payload ?new = (''block-'' @ show_nat now, ty, getDefaultContent ty)"
      by (simp add: payload_def newBlock_def)
    moreover from t d have
      "map payload (take (Suc index) (onAddBlock index ty now bs)) = map payload (take (Suc index) bs)"
      "map payload (drop (Suc (Suc index)) (onAddBlock index ty now bs)) =
        map payload (drop (Suc index) bs)"
      by (simp_all add: take_map drop_map)
    ultimately show ?thesis using eq by simp
  qed
  have hd: "getDefaultContent Heading = JObj [(''text'', JStr ''''), (''level'', JNum 1)]"
    by simp
  from after menu pmenu ok obj hd show ?thesis by blast
qed

theorem insert_after_position_witness:
  "(0::nat) < length [blkA, blkB] \<and>
   map blockId (onAddBlock 0 Heading 5 [blkA, blkB]) = [''a'', ''block-5'', ''b''] \<and>
   map position (onAddBlock 0 Heading 5 [blkA, blkB]) = [0, 1, 2] \<and>
   map content (onAddBlock 0 Heading 5 [blkA, blkB]) =
     [content blkA, JObj [(''text'', JStr ''''), (''level'', JNum 1)], content blkB] \<and>
   map blockId (onAddBlockMenu Heading 5 [blkA, blkB]) = [''a'', ''b'', ''block-5'']"
proof -
  have s5: "show_nat 5 = ''5''" by code_simp
  show ?thesis
    using insert_after_position [of 0 "[blkA, blkB]" Heading 5]
    by (simp add: reindex_def newBlock_def s5 blkA_def blkB_def)
qed

section \<open>The entry form and the database viewer\<close>










text \<open>
  C9. Options of a saved property. When the property editor saves (the trimmed name is
  not empty), the saved property has an \<open>options\<close> field exactly when its type is
  select or multiSelect, and the field then holds the option list of the dialog as it
  is, which may be empty.
\<close>

theorem handleSave_options:
  "(PropertyEditorDialog_handleSave prop nm ty req opts now = None \<longleftrightarrow> trim nm = []) \<and>
   (PropertyEditorDialog_handleSave prop nm ty req opts now = Some p \<longrightarrow>
      propType p = ty \<and>
      (options p \<noteq> None \<longleftrightarrow> ty = PSelect \<or> ty = PMultiSelect) \<and>
      (ty = PSelect \<or> ty = PMultiSelect \<longrightarrow> options p = Some opts))"
  by (auto simp: PropertyEditorDialog_handleSave_def)

theorem handleSave_options_witness:
  "PropertyEditorDialog_handleSave None ''Tags'' PMultiSelect False [''a'', ''b''] 7 =
     Some \<lparr>propId = ''prop-7'', name = ''Tags'', propType = PMultiSelect,
           options = Some [''a'', ''b''], required = Some False\<rparr> \<and>
   options \<lparr>propId = ''prop-7'', name = ''Tags'', propType = PMultiSelect,
           options = Some [''a'', ''b''], required = Some False\<rparr> = Some [''a'', ''b'']"
proof -
  have e: "PropertyEditorDialog_handleSave None ''Tags'' PMultiSelect False [''a'', ''b''] 7 =
     Some \<lparr>propId = ''prop-7'', name = ''Tags'', propType = PMultiSelect,
           options = Some [''a'', ''b''], required = Some False\<rparr>"
    by code_simp
  from handleSave_options [of None "''Tags''" PMultiSelect False "[''a'', ''b'']" 7
      "\<lparr>propId = ''prop-7'', name = ''Tags'', propType = PMultiSelect,
           options = Some [''a'', ''b''], required = Some False\<rparr>"] e
  show ?thesis by simp
qed

text \<open>
  The options of a saved select property can be empty: saving before any option was
  added stores the empty list.
\<close>

theorem handleSave_empty_options_counterexample:
  "map_option options (PropertyEditorDialog_handleSave None ''Status'' PSelect False [] 7) = Some (Some [])"
  by code_simp

text \<open>
  C8. Searching entries. With a non-empty query an entry passes the filter exactly when
  some property of the schema has a string value in the entry that contains the query,
  both lower-cased; values that are not strings never make an entry pass. With the
  empty query every entry passes. The filter keeps the order of the entries.
\<close>

theorem entryMatches_iff:
  "(entryMatches q properties e \<longleftrightarrow>
      q = [] \<or>
      (\<exists>p \<in> set properties. \<exists>v pre suf.
         data e (name p) = Some (JStr v) \<and> toLowerCase v = pre @ toLowerCase q @ suf)) \<and>
   (entryMatches q properties e \<longleftrightarrow> q = [] \<or> someStringValueContains q properties e) \<and>
   filteredEntries q properties entries = filter (entryMatches q properties) entries"
proof -
  have "someStringValueContains q properties e \<longleftrightarrow>
      (\<exists>p \<in> set properties. \<exists>v pre suf.
         data e (name p) = Some (JStr v) \<and> toLowerCase v = pre @ toLowerCase q @ suf)"
    unfolding someStringValueContains_def list_ex_iff sublist_def
    by (intro bex_cong refl) (auto split: option.splits json.splits)
  moreover have "entryMatches q properties e \<longleftrightarrow> q = [] \<or> someStringValueContains q properties e"
    by (simp add: entryMatches_def someStringValueContains_def str_includes_def
        cong: option.case_cong json.case_cong)
  ultimately show ?thesis by (simp add: filteredEntries_def)
qed

theorem entryMatches_iff_witness:
  "filteredEntries ''app'' [propName] [entryApple, entryBanana] = [entryApple] \<and>
   entryMatches ''app'' [propName] entryApple \<and> \<not> entryMatches ''app'' [propName] entryBanana"
proof -
  have a: "someStringValueContains ''app'' [propName] entryApple"
    by code_simp
  have b: "\<not> someStringValueContains ''app'' [propName] entryBanana"
    by code_simp
  have ma: "entryMatches ''app'' [propName] entryApple"
    using entryMatches_iff [of "''app''" "[propName]" entryApple "[]"] a by blast
  have mb: "\<not> entryMatches ''app'' [propName] entryBanana"
    using entryMatches_iff [of "''app''" "[propName]" entryBanana "[]"] b by blast
  have "filteredEntries ''app'' [propName] [entryApple, entryBanana] =
      filter (entryMatches ''app'' [propName]) [entryApple, entryBanana]"
    using entryMatches_iff [of "''app''" "[propName]" entryApple "[entryApple, entryBanana]"]
    by blast
  with ma mb show ?thesis by simp
qed

text \<open>
  With the empty query the match does not depend on a string value: an entry whose only
  value is a boolean passes the filter.
\<close>

theorem entryMatches_empty_query_counterexample:
  "entryMatches '''' [propB] entryDone \<and> \<not> someStringValueContains '''' [propB] entryDone"
  by code_simp

text \<open>
  C4. Required properties. The entry form has no check of required values: saving hands
  the form data to \<open>onSave\<close> as it is, whatever the schema says, and the data map is
  not changed on the way. What the form does with \<open>required\<close> is the marker, which is
  shown for exactly the properties with \<open>required = true\<close> and does not look at the
  data; every property that the check of the specification would fail carries it.
\<close>

theorem handleSave_unchecked:
  "EntryEditorDialog_handleSave onSave formData = onSave formData \<and>
   requiredMarkers properties = propId ` {p \<in> set properties. required p = Some True} \<and>
   validateEntry_spec properties formData \<subseteq> requiredMarkers properties"
  by (auto simp: EntryEditorDialog_handleSave_def requiredMarkers_def requiredMarker_def
      validateEntry_spec_def)

text \<open>
  With one required text property, the check of the specification fails the property
  for a value of two blanks and passes it for \<open>x\<close>. The form saves the blanks, and it
  marks the property for both values.
\<close>

theorem validateEntry_counterexample:
  "validateEntry_spec [propA] [''Title'' \<mapsto> JStr ''  ''] = {''p1''} \<and>
   EntryEditorDialog_handleSave Some [''Title'' \<mapsto> JStr ''  ''] = Some [''Title'' \<mapsto> JStr ''  ''] \<and>
   validateEntry_spec [propA] [''Title'' \<mapsto> JStr ''x''] = {} \<and>
   requiredMarkers [propA] = {''p1''}"
proof -
  have "trim ''  '' = []" and "trim ''x'' \<noteq> []"
    by code_simp+
  then show ?thesis
    by (auto simp: validateEntry_spec_def requiredMarkers_def requiredMarker_def propA_def
        EntryEditorDialog_handleSave_def)
qed

section \<open>Reading back what was written\<close>

subsection \<open>Numbers\<close>

lemma char_eq_code: "c = d \<longleftrightarrow> (of_char c :: nat) = of_char d"
  by simp

lemma of_char_digit_char: "d < 10 \<Longrightarrow> (of_char (digit_char d) :: nat) = 48 + d"
  by (simp add: digit_char_def)

lemma is_digit_digit_char: "d < 10 \<Longrightarrow> is_digit (digit_char d)"
  by (simp add: is_digit_def of_char_digit_char)

lemma show_nat_digits: "list_all is_digit (show_nat n)"
proof (induction n rule: show_nat.induct)
  case (1 n)
  show ?case
  proof (cases "n < 10")
    case True
    then show ?thesis by (subst show_nat.simps) (simp add: is_digit_digit_char)
  next
    case False
    with 1 show ?thesis by (subst show_nat.simps) (simp add: is_digit_digit_char)
  qed
qed

lemma show_nat_nonempty: "show_nat n \<noteq> []"
  by (subst show_nat.simps) simp

lemma digits_value_snoc:
  "digits_value (ds @ [c]) = 10 * digits_value ds + ((of_char c :: nat) - 48)"
  by (simp add: digits_value_def)

lemma digits_value_show_nat: "digits_value (show_nat n) = n"
proof (induction n rule: show_nat.induct)
  case (1 n)
  show ?case
  proof (cases "n < 10")
    case True
    then show ?thesis
      by (subst show_nat.simps) (simp add: digits_value_def of_char_digit_char)
  next
    case False
    with 1 have "digits_value (show_nat (n div 10)) = n div 10" by simp
    with False show ?thesis
      by (subst show_nat.simps) (simp add: digits_value_snoc of_char_digit_char)
  qed
qed

lemma show_nat_no_leading_zero: "0 < n \<Longrightarrow> hd (show_nat n) \<noteq> CHR ''0''"
proof (induction n rule: show_nat.induct)
  case (1 n)
  show ?case
  proof (cases "n < 10")
    case True
    with 1(2) have "(of_char (digit_char n) :: nat) \<noteq> of_char (CHR ''0'')"
      by (simp add: of_char_digit_char)
    then have "digit_char n \<noteq> CHR ''0''" by (simp only: char_eq_code not_False_eq_True)
    with True show ?thesis by (subst show_nat.simps) simp
  next
    case False
    then have "0 < n div 10" by simp
    with 1(1) False have "hd (show_nat (n div 10)) \<noteq> CHR ''0''" by simp
    with False show ?thesis
      by (subst show_nat.simps) (simp add: show_nat_nonempty)
  qed
qed

lemma show_nat_length_one: "1 < length (show_nat n) \<Longrightarrow> 0 < n"
  by (cases "n = 0") (simp_all add: show_nat.simps)

lemma number_end_not_digit: "number_end rest \<Longrightarrow> rest \<noteq> [] \<Longrightarrow> \<not> is_digit (hd rest)"
  by (auto simp: number_end_def is_digit_def)

lemma takeWhile_digits:
  "number_end rest \<Longrightarrow> takeWhile is_digit (show_nat n @ rest) = show_nat n"
proof -
  assume ne: "number_end rest"
  have all: "\<forall>x \<in> set (show_nat n). is_digit x"
    using show_nat_digits [of n] by (simp add: list_all_iff)
  show ?thesis
  proof (cases rest)
    case Nil
    with all show ?thesis by simp
  next
    case (Cons c cs)
    with ne have "\<not> is_digit c" using number_end_not_digit [of rest] by simp
    with all Cons show ?thesis by (simp add: takeWhile_append2)
  qed
qed

lemma dropWhile_digits:
  "number_end rest \<Longrightarrow> dropWhile is_digit (show_nat n @ rest) = rest"
proof -
  assume ne: "number_end rest"
  have all: "\<forall>x \<in> set (show_nat n). is_digit x"
    using show_nat_digits [of n] by (simp add: list_all_iff)
  show ?thesis
  proof (cases rest)
    case Nil
    with all show ?thesis by simp
  next
    case (Cons c cs)
    with ne have "\<not> is_digit c" using number_end_not_digit [of rest] by simp
    with all Cons show ?thesis by (simp add: dropWhile_append2)
  qed
qed

lemma parse_digits:
  assumes "number_end rest"
  shows "parse_number (show_nat n @ rest) = Some (int n, rest)"
proof -
  have d: "is_digit (hd (show_nat n))"
    using show_nat_digits [of n] show_nat_nonempty [of n]
    by (cases "show_nat n") (simp_all)
  then have nm: "hd (show_nat n @ rest) \<noteq> CHR ''-''"
    using show_nat_nonempty [of n] by (auto simp: is_digit_def)
  have lz: "\<not> (hd (show_nat n) = CHR ''0'' \<and> 1 < length (show_nat n))"
    using show_nat_no_leading_zero show_nat_length_one by blast
  have re: "\<not> (rest \<noteq> [] \<and> (hd rest = CHR ''.'' \<or> hd rest = CHR ''e'' \<or> hd rest = CHR ''E''))"
    using assms by (auto simp: number_end_def)
  show ?thesis
    using nm lz re
    by (simp add: parse_number_def Let_def takeWhile_digits [OF assms] dropWhile_digits [OF assms]
        show_nat_nonempty digits_value_show_nat)
qed

lemma parse_show_int:
  assumes "number_end rest"
  shows "parse_number (show_int i @ rest) = Some (i, rest)"
proof (cases "i < 0")
  case False
  then show ?thesis by (simp add: show_int_def parse_digits [OF assms])
next
  case True
  define n where "n = nat (- i)"
  have lz: "\<not> (hd (show_nat n) = CHR ''0'' \<and> 1 < length (show_nat n))"
    using show_nat_no_leading_zero show_nat_length_one by blast
  have re: "\<not> (rest \<noteq> [] \<and> (hd rest = CHR ''.'' \<or> hd rest = CHR ''e'' \<or> hd rest = CHR ''E''))"
    using assms by (auto simp: number_end_def)
  have "parse_number (CHR ''-'' # show_nat n @ rest) = Some (- int n, rest)"
    using lz re
    by (simp add: parse_number_def Let_def takeWhile_digits [OF assms] dropWhile_digits [OF assms]
        show_nat_nonempty digits_value_show_nat)
  with True show ?thesis by (simp add: show_int_def n_def)
qed

subsection \<open>String literals\<close>

lemma hex_val_hex_char: "d < 16 \<Longrightarrow> hex_val (hex_char d) = Some d"
  by (auto simp: hex_val_def hex_char_def Let_def)

lemma hex4_low: "a < 16 \<Longrightarrow> b < 16 \<Longrightarrow>
  hex4 (CHR ''0'') (CHR ''0'') (hex_char a) (hex_char b) = Some (a * 16 + b)"
  by (simp add: hex4_def hex_val_hex_char) (simp add: hex_val_def)

lemma parse_chars_quote_char:
  "parse_chars (quote_char c @ t) = map_option (\<lambda>(s, r). (c # s, r)) (parse_chars t)"
proof -
  consider (special) "c \<in> {CHR 0x22, CHR 0x5C, CHR 0x08, CHR 0x0C, CHR 0x0A, CHR 0x0D, CHR 0x09}"
    | (control) "c \<notin> {CHR 0x22, CHR 0x5C, CHR 0x08, CHR 0x0C, CHR 0x0A, CHR 0x0D, CHR 0x09}"
        "(of_char c :: nat) < 32"
    | (plain) "c \<notin> {CHR 0x22, CHR 0x5C, CHR 0x08, CHR 0x0C, CHR 0x0A, CHR 0x0D, CHR 0x09}"
        "\<not> (of_char c :: nat) < 32"
    by blast
  then show ?thesis
  proof cases
    case special
    then show ?thesis
      by (auto simp: quote_char_def unescape_def)
  next
    case control
    define n where "n = (of_char c :: nat)"
    have n: "n div 16 < 16" "n mod 16 < 16" "n div 16 * 16 + n mod 16 = n" "n < 256"
      using control(2) by (simp_all add: n_def)
    have c: "char_of n = c" by (simp add: n_def)
    have q: "quote_char c = [CHR 0x5C, CHR ''u'', CHR ''0'', CHR ''0'', hex_char (n div 16), hex_char (n mod 16)]"
      using control by (simp add: quote_char_def n_def)
    show ?thesis
      by (simp add: q hex4_low n c)
  next
    case plain
    then show ?thesis
      by (simp add: quote_char_def)
  qed
qed

lemma parse_chars_body:
  "parse_chars (concat (map quote_char s) @ CHR 0x22 # rest) = Some (s, rest)"
  by (induction s) (simp_all add: parse_chars_quote_char del: parse_chars.simps(2), simp)


subsection \<open>Values\<close>

lemma skip_ws_start: "\<not> is_ws c \<Longrightarrow> skip_ws (c # cs) = c # cs"
  by (simp add: skip_ws_def)

lemma show_int_start:
  "\<exists>c t. show_int i = c # t \<and> (c = CHR ''-'' \<or> is_digit c)"
proof -
  obtain c t where ct: "show_nat (nat \<bar>i\<bar>) = c # t"
    using show_nat_nonempty by (cases "show_nat (nat \<bar>i\<bar>)") auto
  moreover have "is_digit c"
    using show_nat_digits [of "nat \<bar>i\<bar>"] ct by simp
  ultimately show ?thesis
    by (cases "i < 0") (auto simp: show_int_def abs_if)
qed

lemma stringify_start: "\<exists>c t. stringify v = c # t \<and> value_start c"
proof (cases v)
  case (JNum i)
  from show_int_start [of i] obtain c t where "show_int i = c # t" "c = CHR ''-'' \<or> is_digit c"
    by blast
  with JNum show ?thesis by (auto simp: value_start_def is_ws_def is_digit_def)
qed (auto simp: value_start_def is_ws_def quote_def)

lemma stringify_elements_start:
  "xs \<noteq> [] \<Longrightarrow> \<exists>c t. stringify_elements xs = c # t \<and> value_start c"
proof (cases xs)
  case Nil
  assume "xs \<noteq> []"
  with Nil show ?thesis by simp
next
  case (Cons x ys)
  from stringify_start [of x] obtain c t where "stringify x = c # t" "value_start c" by blast
  with Cons show ?thesis by (cases ys) auto
qed

lemma stringify_members_start:
  "kvs \<noteq> [] \<Longrightarrow> \<exists>t. stringify_members kvs = CHR 0x22 # t"
proof (cases kvs)
  case Nil
  assume "kvs \<noteq> []"
  with Nil show ?thesis by simp
next
  case (Cons kv ms)
  then show ?thesis by (cases kv; cases ms) (auto simp: quote_def)
qed

lemma pv_null: "parse_value (Suc n) (''null'' @ rest) = Some (JNull, rest)"
  by (simp add: skip_ws_def is_ws_def)

lemma pv_true: "parse_value (Suc n) (''true'' @ rest) = Some (JBool True, rest)"
  by (simp add: skip_ws_def is_ws_def)

lemma pv_false: "parse_value (Suc n) (''false'' @ rest) = Some (JBool False, rest)"
  by (simp add: skip_ws_def is_ws_def)

lemma pv_str: "parse_value (Suc n) (quote s @ rest) = Some (JStr s, rest)"
  by (simp add: quote_def skip_ws_def is_ws_def parse_chars_body)

lemma pv_num:
  assumes "number_end rest"
  shows "parse_value (Suc n) (show_int i @ rest) = Some (JNum i, rest)"
proof -
  from show_int_start [of i] obtain c t where ct: "show_int i = c # t"
    and c: "c = CHR ''-'' \<or> is_digit c" by blast
  from c have "\<not> is_ws c" "c \<noteq> CHR ''{''" "c \<noteq> CHR ''[''" "c \<noteq> CHR 0x22"
    "c \<noteq> CHR ''t''" "c \<noteq> CHR ''f''" "c \<noteq> CHR ''n''"
    by (auto simp: is_ws_def is_digit_def)
  then have "parse_value (Suc n) (c # t @ rest) =
      map_option (\<lambda>(i, r). (JNum i, r)) (parse_number (c # t @ rest))"
    by (simp add: skip_ws_start)
  also have "c # t @ rest = show_int i @ rest" by (simp add: ct)
  finally show ?thesis by (simp add: parse_show_int [OF assms])
qed

lemma pv_arr_empty: "parse_value (Suc n) (''[]'' @ rest) = Some (JArr [], rest)"
  by (simp add: skip_ws_def is_ws_def)

lemma pv_obj_empty: "parse_value (Suc n) (''{}'' @ rest) = Some (JObj [], rest)"
  by (simp add: skip_ws_def is_ws_def)

lemma pv_arr:
  assumes "value_start c"
  shows "parse_value (Suc n) (CHR ''['' # c # t) =
     map_option (\<lambda>(xs, r). (JArr xs, r)) (parse_elements n [] (c # t))"
proof -
  have "skip_ws (CHR ''['' # c # t) = CHR ''['' # c # t" "skip_ws (c # t) = c # t"
    using assms by (simp_all add: skip_ws_def is_ws_def value_start_def)
  with assms show ?thesis by (simp add: value_start_def)
qed

lemma pv_obj:
  "parse_value (Suc n) (CHR ''{'' # CHR 0x22 # t) =
     map_option (\<lambda>(kvs, r). (JObj kvs, r)) (parse_members n [] (CHR 0x22 # t))"
proof -
  have "skip_ws (CHR ''{'' # CHR 0x22 # t) = CHR ''{'' # CHR 0x22 # t"
    "skip_ws (CHR 0x22 # t) = CHR 0x22 # t"
    by (simp_all add: skip_ws_def is_ws_def)
  then show ?thesis by simp
qed

lemma pe_step:
  assumes "parse_value n s = Some (v, c # r)" "\<not> is_ws c"
  shows "parse_elements (Suc n) acc s =
     (if c = CHR '','' then parse_elements n (acc @ [v]) r
      else if c = CHR '']'' then Some (acc @ [v], r) else None)"
  using assms by (simp add: skip_ws_start)

lemma pm_step:
  assumes "parse_value n s = Some (v, c # r)" "\<not> is_ws c"
  shows "parse_members (Suc n) acc (quote k @ CHR '':'' # s) =
     (if c = CHR '','' then parse_members n (setProp k v acc) r
      else if c = CHR ''}'' then Some (setProp k v acc, r) else None)"
proof -
  have "skip_ws (quote k @ CHR '':'' # s) = CHR 0x22 # concat (map quote_char k) @ CHR 0x22 # CHR '':'' # s"
    by (simp add: quote_def skip_ws_def is_ws_def)
  moreover have "parse_chars (concat (map quote_char k) @ CHR 0x22 # CHR '':'' # s) = Some (k, CHR '':'' # s)"
    by (rule parse_chars_body)
  moreover have "skip_ws (CHR '':'' # s) = CHR '':'' # s"
    by (simp add: skip_ws_def is_ws_def)
  ultimately show ?thesis
    using assms by (simp add: skip_ws_start)
qed

lemma setProp_fresh: "k \<notin> fst ` set acc \<Longrightarrow> setProp k v acc = acc @ [(k, v)]"
  by (induction acc) auto

lemma number_end_simps:
  "number_end []" "number_end (CHR '','' # r)" "number_end (CHR '']'' # r)" "number_end (CHR ''}'' # r)"
  by (simp_all add: number_end_def)

lemma delimiters_not_ws: "\<not> is_ws (CHR '','')" "\<not> is_ws (CHR '']'')" "\<not> is_ws (CHR ''}'')"
  by (simp_all add: is_ws_def)

lemma parse_stringify:
  "wf_json v \<Longrightarrow> length (stringify v) < n \<Longrightarrow> number_end rest \<Longrightarrow>
     parse_value n (stringify v @ rest) = Some (v, rest)"
  "xs \<noteq> [] \<Longrightarrow> wf_elements xs \<Longrightarrow> length (stringify_elements xs) + 1 < m \<Longrightarrow>
     parse_elements m acc (stringify_elements xs @ CHR '']'' # rest1) = Some (acc @ xs, rest1)"
  "kvs \<noteq> [] \<Longrightarrow> wf_members kvs \<Longrightarrow> distinct (map fst (acc2 @ kvs)) \<Longrightarrow>
     length (stringify_members kvs) + 1 < l \<Longrightarrow>
     parse_members l acc2 (stringify_members kvs @ CHR ''}'' # rest2) = Some (acc2 @ kvs, rest2)"
proof (induction v and xs and kvs arbitrary: n rest and m acc rest1 and l acc2 rest2
    rule: stringify_stringify_elements_stringify_members.induct)
  case 1
  then obtain n' where "n = Suc n'" by (cases n) auto
  then show ?case using pv_null [of n' rest] by simp
next
  case (2 b)
  then obtain n' where "n = Suc n'" by (cases n) auto
  then show ?case using pv_true [of n' rest] pv_false [of n' rest] by simp
next
  case (3 i)
  then obtain n' where "n = Suc n'" by (cases n) auto
  then show ?case using pv_num [OF 3(3), of n' i] by simp
next
  case (4 s)
  then obtain n' where "n = Suc n'" by (cases n) auto
  then show ?case using pv_str [of n' s rest] by simp
next
  case (5 xs)
  from 5(3) obtain n' where n: "n = Suc n'" by (cases n) auto
  show ?case
  proof (cases "xs = []")
    case True
    then show ?thesis using pv_arr_empty [of n' rest] n by simp
  next
    case False
    from stringify_elements_start [OF False] obtain c t
      where ct: "stringify_elements xs = c # t" and c: "value_start c" by blast
    have "parse_elements n' [] (stringify_elements xs @ CHR '']'' # rest) = Some ([] @ xs, rest)"
      using False 5(2,3) n by (intro 5(1)) simp_all
    then have "parse_elements n' [] (c # t @ CHR '']'' # rest) = Some (xs, rest)"
      by (simp add: ct)
    then have "parse_value (Suc n') (CHR ''['' # c # t @ CHR '']'' # rest) = Some (JArr xs, rest)"
      by (simp only: pv_arr [OF c]) simp
    then show ?thesis by (simp add: n ct)
  qed
next
  case (6 kvs)
  from 6(3) obtain n' where n: "n = Suc n'" by (cases n) auto
  show ?case
  proof (cases "kvs = []")
    case True
    then show ?thesis using pv_obj_empty [of n' rest] n by simp
  next
    case False
    from stringify_members_start [OF False] obtain t
      where t: "stringify_members kvs = CHR 0x22 # t" by blast
    have "parse_members n' [] (stringify_members kvs @ CHR ''}'' # rest) = Some ([] @ kvs, rest)"
      using False 6(2,3) n by (intro 6(1)) simp_all
    then have "parse_members n' [] (CHR 0x22 # t @ CHR ''}'' # rest) = Some (kvs, rest)"
      by (simp add: t)
    then have "parse_value (Suc n') (CHR ''{'' # CHR 0x22 # t @ CHR ''}'' # rest) = Some (JObj kvs, rest)"
      by (simp only: pv_obj) simp
    then show ?thesis by (simp add: n t)
  qed
next
  case 7
  then show ?case by simp
next
  case (8 x)
  from 8(4) obtain m' where m: "m = Suc m'" by (cases m) auto
  have pv: "parse_value m' (stringify x @ CHR '']'' # rest1) = Some (x, CHR '']'' # rest1)"
    using 8(3,4) m by (intro 8(1)) (simp_all add: number_end_simps)
  have "parse_elements (Suc m') acc (stringify x @ CHR '']'' # rest1) = Some (acc @ [x], rest1)"
    using pe_step [OF pv delimiters_not_ws(2), of acc] by simp
  then show ?case by (simp add: m)
next
  case (9 x y ys)
  from 9(5) obtain m' where m: "m = Suc m'" by (cases m) auto
  let ?tail = "stringify_elements (y # ys) @ CHR '']'' # rest1"
  have pv: "parse_value m' (stringify x @ CHR '','' # ?tail) = Some (x, CHR '','' # ?tail)"
    using 9(4,5) m by (intro 9(1)) (simp_all add: number_end_simps)
  have "parse_elements (Suc m') acc (stringify x @ CHR '','' # ?tail) =
      parse_elements m' (acc @ [x]) ?tail"
    using pe_step [OF pv delimiters_not_ws(1), of acc] by simp
  also have "\<dots> = Some ((acc @ [x]) @ (y # ys), rest1)"
    using 9(4,5) m by (intro 9(2)) simp_all
  finally show ?case by (simp add: m)
next
  case 10
  then show ?case by simp
next
  case (11 k v)
  from 11(5) obtain l' where l: "l = Suc l'" by (cases l) auto
  have fresh: "k \<notin> fst ` set acc2" using 11(4) by auto
  have pv: "parse_value l' (stringify v @ CHR ''}'' # rest2) = Some (v, CHR ''}'' # rest2)"
    using 11(3,5) l by (intro 11(1)) (simp_all add: number_end_simps)
  have "parse_members (Suc l') acc2 (quote k @ CHR '':'' # stringify v @ CHR ''}'' # rest2) =
      Some (setProp k v acc2, rest2)"
    using pm_step [OF pv delimiters_not_ws(3), of acc2 k] by simp
  then show ?case by (simp add: l setProp_fresh [OF fresh])
next
  case (12 k v kv ms)
  from 12(6) obtain l' where l: "l = Suc l'" by (cases l) auto
  have fresh: "k \<notin> fst ` set acc2" using 12(5) by auto
  let ?tail = "stringify_members (kv # ms) @ CHR ''}'' # rest2"
  have pv: "parse_value l' (stringify v @ CHR '','' # ?tail) = Some (v, CHR '','' # ?tail)"
    using 12(4,6) l by (intro 12(1)) (simp_all add: number_end_simps)
  have "parse_members (Suc l') acc2 (quote k @ CHR '':'' # stringify v @ CHR '','' # ?tail) =
      parse_members l' (setProp k v acc2) ?tail"
    using pm_step [OF pv delimiters_not_ws(1), of acc2 k] by simp
  also have "\<dots> = parse_members l' (acc2 @ [(k, v)]) ?tail"
    by (simp only: setProp_fresh [OF fresh])
  also have "\<dots> = Some ((acc2 @ [(k, v)]) @ (kv # ms), rest2)"
    using 12(4,5,6) l by (intro 12(2)) simp_all
  finally show ?case by (simp add: l)
qed

lemma JSON_parse_stringify: "wf_json v \<Longrightarrow> JSON_parse (JSON_stringify v) = Some v"
proof -
  assume "wf_json v"
  then have "parse_value (Suc (length (stringify v))) (stringify v @ []) = Some (v, [])"
    by (intro parse_stringify(1)) (simp_all add: number_end_simps)
  then show ?thesis by (simp add: JSON_parse_def JSON_stringify_def skip_ws_def)
qed

section \<open>The bound on nested calls\<close>

text \<open>
  A successful run of the parser needs no more nested calls than it reads characters.
  So the bound that \<open>JSON_parse\<close> starts with never turns a text that can be read
  into a failure: \<open>None\<close> means that no bound at all lets the text be read.
\<close>

lemma length_skip_ws: "length (skip_ws s) \<le> length s"
  by (simp add: skip_ws_def length_dropWhile_le)

lemma skip_ws_Cons_length: "skip_ws s = c # cs \<Longrightarrow> length cs < length s"
  using length_skip_ws [of s] by simp

lemma parse_chars_shorter: "parse_chars cs = Some (x, r) \<Longrightarrow> length r < length cs"
proof (induction cs arbitrary: x r rule: length_induct)
  case (1 cs)
  have ih: "\<And>ys y q. length ys < length cs \<Longrightarrow> parse_chars ys = Some (y, q) \<Longrightarrow> length q < length ys"
    using 1(1) by blast
  from 1(2) obtain c t where ct: "cs = c # t" by (cases cs) auto
  from 1(2) show ?case
    unfolding ct
    by (auto split: if_splits list.splits option.splits dest!: ih [rotated] simp: ct)
qed

lemma parse_number_shorter: "parse_number s = Some (i, r) \<Longrightarrow> length r < length s"
proof -
  assume a: "parse_number s = Some (i, r)"
  define s1 where "s1 = (if s \<noteq> [] \<and> hd s = CHR ''-'' then tl s else s)"
  from a have ne: "takeWhile is_digit s1 \<noteq> []" and r: "r = dropWhile is_digit s1"
    by (auto simp: parse_number_def Let_def s1_def split: if_splits)
  have "length (takeWhile is_digit s1) + length (dropWhile is_digit s1) = length s1"
    by (metis length_append takeWhile_dropWhile_id)
  with ne r have "length r < length s1" by (cases "takeWhile is_digit s1") auto
  moreover have "length s1 \<le> length s" by (simp add: s1_def)
  ultimately show ?thesis by simp
qed

lemma pv_atom:
  "skip_ws s = c # cs \<Longrightarrow> c \<noteq> CHR ''{'' \<Longrightarrow> c \<noteq> CHR ''['' \<Longrightarrow>
   parse_value (Suc a) s = parse_value (Suc b) s"
  by simp

lemma pv_atom_shorter:
  assumes "parse_value (Suc a) s = Some (v, r)" "skip_ws s = c # cs"
    "c \<noteq> CHR ''{''" "c \<noteq> CHR ''[''"
  shows "length r < length s"
proof -
  have cs: "length cs < length s" using assms(2) by (rule skip_ws_Cons_length)
  have n: "length (c # cs) \<le> length s" using length_skip_ws [of s] assms(2) by simp
  from assms consider
      (str) x where "parse_chars cs = Some (x, r)"
    | (lit) k where "r = drop k cs"
    | (num) i where "parse_number (c # cs) = Some (i, r)"
    by (auto split: if_splits)
  then show ?thesis
  proof cases
    case str
    then show ?thesis using parse_chars_shorter cs by fastforce
  next
    case lit
    then show ?thesis using cs by simp
  next
    case num
    then show ?thesis using parse_number_shorter n by fastforce
  qed
qed

lemma pv_open:
  "skip_ws s = CHR ''['' # cs \<Longrightarrow>
   parse_value (Suc a) s =
     (case skip_ws cs of
        [] \<Rightarrow> None
      | c' # cs' \<Rightarrow>
          if c' = CHR '']'' then Some (JArr [], cs')
          else map_option (\<lambda>(xs, r). (JArr xs, r)) (parse_elements a [] (c' # cs')))"
  "skip_ws s = CHR ''{'' # cs \<Longrightarrow>
   parse_value (Suc a) s =
     (case skip_ws cs of
        [] \<Rightarrow> None
      | c' # cs' \<Rightarrow>
          if c' = CHR ''}'' then Some (JObj [], cs')
          else map_option (\<lambda>(kvs, r). (JObj kvs, r)) (parse_members a [] (c' # cs')))"
  by simp_all

lemma parse_tight:
  "parse_value n s = Some (v, r) \<Longrightarrow>
     length r < length s \<and> (\<forall>k. length s - length r < k \<longrightarrow> parse_value k s = Some (v, r))"
  "parse_elements n acc s = Some (xs, r1) \<Longrightarrow>
     length r1 < length s \<and>
     (\<forall>k. length s - length r1 < k \<longrightarrow> parse_elements k acc s = Some (xs, r1))"
  "parse_members n acc2 s = Some (kvs, r2) \<Longrightarrow>
     length r2 < length s \<and>
     (\<forall>k. length s - length r2 < k \<longrightarrow> parse_members k acc2 s = Some (kvs, r2))"
proof (induction n s and n acc s and n acc2 s arbitrary: v r and xs r1 and kvs r2
    rule: parse_value_parse_elements_parse_members.induct)
  case (1 s)
  then show ?case by simp
next
  case (2 n s)
  from 2(3) obtain c cs where sk: "skip_ws s = c # cs"
    by (cases "skip_ws s") auto
  have len: "Suc (length cs) \<le> length s"
    using length_skip_ws [of s] sk by simp
  show ?case
  proof (cases "c = CHR ''{'' \<or> c = CHR ''[''")
    case False
    then have sh: "length r < length s"
      using pv_atom_shorter [OF 2(3) sk] by simp
    have "parse_value k s = Some (v, r)" if "length s - length r < k" for k
    proof -
      from that obtain k' where "k = Suc k'" by (cases k) auto
      then show ?thesis using pv_atom [OF sk, of k' n] False 2(3) by simp
    qed
    with sh show ?thesis by blast
  next
    case True
    from 2(3) True sk obtain c' cs' where sk': "skip_ws cs = c' # cs'"
      by (cases "skip_ws cs") auto
    have len': "Suc (length cs') \<le> length cs"
      using length_skip_ws [of cs] sk' by simp
    from True show ?thesis
    proof
      assume c: "c = CHR ''{''"
      show ?thesis
      proof (cases "c' = CHR ''}''")
        case True
        with 2(3) sk sk' c have vr: "v = JObj []" "r = cs'" by simp_all
        have "parse_value k s = Some (v, r)" if "length s - length r < k" for k
        proof -
          from that obtain k' where "k = Suc k'" by (cases k) auto
          then show ?thesis using sk sk' c True vr by simp
        qed
        with vr len len' show ?thesis by simp
      next
        case False
        with 2(3) sk sk' c obtain kvs where m: "parse_members n [] (c' # cs') = Some (kvs, r)"
          and v: "v = JObj kvs" by auto
        from 2(1) [OF sk c sk' False m]
        have ih: "length r < length (c' # cs')"
          "\<And>k. length (c' # cs') - length r < k \<Longrightarrow> parse_members k [] (c' # cs') = Some (kvs, r)"
          by simp_all
        have "parse_value k s = Some (v, r)" if "length s - length r < k" for k
        proof -
          from that obtain k' where k: "k = Suc k'" by (cases k) auto
          with that ih(1) len len' have "length (c' # cs') - length r < k'" by simp
          then have "parse_members k' [] (c' # cs') = Some (kvs, r)" by (rule ih(2))
          then show ?thesis using sk sk' c False v k by simp
        qed
        with ih(1) len len' show ?thesis by simp
      qed
    next
      assume c: "c = CHR ''[''"
      show ?thesis
      proof (cases "c' = CHR '']''")
        case True
        with 2(3) sk sk' c have vr: "v = JArr []" "r = cs'" by simp_all
        have "parse_value k s = Some (v, r)" if "length s - length r < k" for k
        proof -
          from that obtain k' where "k = Suc k'" by (cases k) auto
          then show ?thesis using sk sk' c True vr by simp
        qed
        with vr len len' show ?thesis by simp
      next
        case False
        with 2(3) sk sk' c obtain xs where m: "parse_elements n [] (c' # cs') = Some (xs, r)"
          and v: "v = JArr xs" by auto
        have nb: "c \<noteq> CHR ''{''" using c by simp
        from 2(2) [OF sk nb c sk' False m]
        have ih: "length r < length (c' # cs')"
          "\<And>k. length (c' # cs') - length r < k \<Longrightarrow> parse_elements k [] (c' # cs') = Some (xs, r)"
          by simp_all
        have "parse_value k s = Some (v, r)" if "length s - length r < k" for k
        proof -
          from that obtain k' where k: "k = Suc k'" by (cases k) auto
          with that ih(1) len len' have "length (c' # cs') - length r < k'" by simp
          then have "parse_elements k' [] (c' # cs') = Some (xs, r)" by (rule ih(2))
          then show ?thesis using sk sk' c False v k by simp
        qed
        with ih(1) len len' show ?thesis by simp
      qed
    qed
  qed
next
  case (3 acc s)
  then show ?case by simp
next
  case (4 n acc s)
  from 4(3) obtain v r0 where pv: "parse_value n s = Some (v, r0)"
    by (cases "parse_value n s") auto
  from 4(3) pv obtain c r' where sk: "skip_ws r0 = c # r'"
    by (cases "skip_ws r0") auto
  have len: "Suc (length r') \<le> length r0"
    using length_skip_ws [of r0] sk by simp
  from 4(1) [OF pv]
  have ihv: "length r0 < length s"
    "\<And>k. length s - length r0 < k \<Longrightarrow> parse_value k s = Some (v, r0)"
    by simp_all
  show ?case
  proof (cases "c = CHR '',''")
    case True
    with 4(3) pv sk have pe: "parse_elements n (acc @ [v]) r' = Some (xs, r1)" by simp
    from 4(2) [OF pv refl sk True pe]
    have ihe: "length r1 < length r'"
      "\<And>k. length r' - length r1 < k \<Longrightarrow> parse_elements k (acc @ [v]) r' = Some (xs, r1)"
      by simp_all
    have "parse_elements k acc s = Some (xs, r1)" if "length s - length r1 < k" for k
    proof -
      from that obtain k' where k: "k = Suc k'" by (cases k) auto
      from that k ihv(1) ihe(1) len have "length s - length r0 < k'" "length r' - length r1 < k'"
        by simp_all
      then have "parse_value k' s = Some (v, r0)" "parse_elements k' (acc @ [v]) r' = Some (xs, r1)"
        using ihv(2) ihe(2) by simp_all
      then show ?thesis using sk True k by simp
    qed
    with ihv(1) ihe(1) len show ?thesis by simp
  next
    case False
    with 4(3) pv sk have c: "c = CHR '']''" and x: "xs = acc @ [v]" "r1 = r'"
      by (auto split: if_splits)
    have "parse_elements k acc s = Some (xs, r1)" if "length s - length r1 < k" for k
    proof -
      from that obtain k' where k: "k = Suc k'" by (cases k) auto
      from that k ihv(1) len x have "length s - length r0 < k'" by simp
      then have "parse_value k' s = Some (v, r0)" using ihv(2) by simp
      then show ?thesis using sk c x k by simp
    qed
    with ihv(1) len x show ?thesis by simp
  qed
next
  case (5 acc2 s)
  then show ?case by simp
next
  case (6 n acc2 s)
  from 6(3) obtain c cs where sk: "skip_ws s = c # cs"
    by (cases "skip_ws s") auto
  from 6(3) sk have c: "c = CHR 0x22" by (auto split: if_splits)
  have nc: "\<not> c \<noteq> CHR 0x22" using c by simp
  from 6(3) sk c obtain key r0 where pc: "parse_chars cs = Some (key, r0)"
    by (cases "parse_chars cs") auto
  from 6(3) sk c pc obtain c2 t2 where sk2: "skip_ws r0 = c2 # t2"
    by (cases "skip_ws r0") auto
  from 6(3) sk c pc sk2 have c2: "c2 = CHR '':''" by (auto split: if_splits)
  have nc2: "\<not> c2 \<noteq> CHR '':''" using c2 by simp
  from 6(3) sk c pc sk2 c2 obtain v r3 where pv: "parse_value n t2 = Some (v, r3)"
    by (cases "parse_value n t2") auto
  from 6(3) sk c pc sk2 c2 pv obtain c3 r4 where sk3: "skip_ws r3 = c3 # r4"
    by (cases "skip_ws r3") auto
  have l1: "Suc (length cs) \<le> length s" using length_skip_ws [of s] sk by simp
  have l2: "length r0 < length cs" using pc by (rule parse_chars_shorter)
  have l3: "Suc (length t2) \<le> length r0" using length_skip_ws [of r0] sk2 by simp
  have l4: "Suc (length r4) \<le> length r3" using length_skip_ws [of r3] sk3 by simp
  from 6(1) [OF sk nc pc refl sk2 nc2 pv]
  have ihv: "length r3 < length t2"
    "\<And>k. length t2 - length r3 < k \<Longrightarrow> parse_value k t2 = Some (v, r3)"
    by simp_all
  show ?case
  proof (cases "c3 = CHR '',''")
    case True
    with 6(3) sk c pc sk2 c2 pv sk3
    have pm: "parse_members n (setProp key v acc2) r4 = Some (kvs, r2)" by simp
    from 6(2) [OF sk nc pc refl sk2 nc2 pv refl sk3 True pm]
    have ihm: "length r2 < length r4"
      "\<And>k. length r4 - length r2 < k \<Longrightarrow> parse_members k (setProp key v acc2) r4 = Some (kvs, r2)"
      by simp_all
    have "parse_members k acc2 s = Some (kvs, r2)" if "length s - length r2 < k" for k
    proof -
      from that obtain k' where k: "k = Suc k'" by (cases k) auto
      from that k l1 l2 l3 l4 ihv(1) ihm(1)
      have "length t2 - length r3 < k'" "length r4 - length r2 < k'" by simp_all
      then have "parse_value k' t2 = Some (v, r3)"
        "parse_members k' (setProp key v acc2) r4 = Some (kvs, r2)"
        using ihv(2) ihm(2) by simp_all
      then show ?thesis using sk c pc sk2 c2 sk3 True k by simp
    qed
    with l1 l2 l3 l4 ihv(1) ihm(1) show ?thesis by simp
  next
    case False
    with 6(3) sk c pc sk2 c2 pv sk3
    have c3: "c3 = CHR ''}''" and x: "kvs = setProp key v acc2" "r2 = r4"
      by (auto split: if_splits)
    have "parse_members k acc2 s = Some (kvs, r2)" if "length s - length r2 < k" for k
    proof -
      from that obtain k' where k: "k = Suc k'" by (cases k) auto
      from that k l1 l2 l3 l4 ihv(1) x have "length t2 - length r3 < k'" by simp
      then have "parse_value k' t2 = Some (v, r3)" using ihv(2) by simp
      then show ?thesis using sk c pc sk2 c2 sk3 c3 x k by simp
    qed
    with l1 l2 l3 l4 ihv(1) x show ?thesis by simp
  qed
qed

lemma parse_value_fuel:
  "parse_value n s = Some (v, r) \<Longrightarrow> parse_value (Suc (length s)) s = Some (v, r)"
proof -
  assume "parse_value n s = Some (v, r)"
  from parse_tight(1) [OF this]
  have "\<forall>k. length s - length r < k \<longrightarrow> parse_value k s = Some (v, r)" by blast
  moreover have "length s - length r < Suc (length s)" by arith
  ultimately show ?thesis by blast
qed

lemma JSON_parse_fuel:
  "JSON_parse s = Some v \<longleftrightarrow> (\<exists>n r. parse_value n s = Some (v, r) \<and> skip_ws r = [])"
proof
  assume "JSON_parse s = Some v"
  then obtain r where "parse_value (Suc (length s)) s = Some (v, r)" "skip_ws r = []"
    unfolding JSON_parse_def
    by (cases "parse_value (Suc (length s)) s")
      (auto split: if_splits simp del: parse_value.simps)
  then show "\<exists>n r. parse_value n s = Some (v, r) \<and> skip_ws r = []"
    by blast
next
  assume "\<exists>n r. parse_value n s = Some (v, r) \<and> skip_ws r = []"
  then obtain n r where p: "parse_value n s = Some (v, r)" and r: "skip_ws r = []" by blast
  from parse_value_fuel [OF p] r show "JSON_parse s = Some v"
    unfolding JSON_parse_def by (simp del: parse_value.simps)
qed

section \<open>Saving and loading a page\<close>

lemma type_of_name_type_name: "type_of_name (type_name ty) = Some ty"
  by (cases ty) (simp_all add: type_of_name_def)

lemma block_of_json_block_to_json: "block_of_json (block_to_json b) = Some b"
  by (simp add: block_of_json_def block_to_json_def type_of_name_type_name)

lemma wf_block_to_json: "wf_json (content b) \<Longrightarrow> wf_json (block_to_json b)"
  by (simp add: block_to_json_def)

lemma wf_elements_blocks: "valid_blocks bs \<Longrightarrow> wf_elements (map block_to_json bs)"
  by (induction bs) (simp_all add: valid_blocks_def wf_block_to_json)

lemma handleSave_parse:
  "valid_blocks bs \<Longrightarrow>
   JSON_parse (PageEditor_handleSave bs) = Some (JArr (map block_to_json bs))"
  unfolding PageEditor_handleSave_def
  by (rule JSON_parse_stringify) (simp add: wf_elements_blocks)

lemma handleSave_nonempty: "PageEditor_handleSave bs \<noteq> []"
  by (simp add: PageEditor_handleSave_def JSON_stringify_def)

lemma block_of_json_fallbackBlock:
  "block_of_json (fallbackBlock s) =
     Some \<lparr>blockId = ''block-1'', blockType = Text,
            content = JObj [(''text'', JStr s), (''format'', JStr ''paragraph'')], position = 0\<rparr>"
  by (simp add: block_of_json_def fallbackBlock_def type_of_name_def)

text \<open>
  C3. Round trip. For a block list whose payloads are values of the host language
  (every object has each key once), loading the text that saving wrote gives back the
  same objects in the same order, field by field, positions included, and reading each
  of them as a block gives back the original blocks. The project resources are taken
  to load without an exception.
\<close>

theorem load_save_roundtrip:
  "valid_blocks bs \<Longrightarrow>
   loadPageData JSON_parse (Some (PageEditor_handleSave bs)) False = map block_to_json bs \<and>
   map block_of_json (loadPageData JSON_parse (Some (PageEditor_handleSave bs)) False) = map Some bs"
proof -
  assume v: "valid_blocks bs"
  have "loadPageData JSON_parse (Some (PageEditor_handleSave bs)) False = map block_to_json bs"
    by (simp add: loadPageData_def Let_def handleSave_nonempty handleSave_parse [OF v])
  then show ?thesis
    by (simp add: block_of_json_block_to_json comp_def)
qed

theorem load_save_roundtrip_witness:
  "valid_blocks [blkA, blkB] \<and>
   map block_of_json (loadPageData JSON_parse (Some (PageEditor_handleSave [blkA, blkB])) False) =
     [Some blkA, Some blkB]"
proof -
  have v: "valid_blocks [blkA, blkB]"
    by (simp add: valid_blocks_def blkA_def blkB_def)
  from load_save_roundtrip [OF v, THEN conjunct2] v show ?thesis by simp
qed

text \<open>
  C2. Loading never fails: whatever \<open>JSON.parse\<close> does with the stored text, the
  editor ends with a block list. Text that \<open>JSON.parse\<close> refuses gives one block with
  identifier \<open>block-1\<close>, tag text and position 0 whose text is the stored text itself,
  in paragraph format. When the rest of the page load goes through, empty or missing
  content gives the empty block list, a parsed value that is not an array gives the
  empty list, and an array gives its elements.
\<close>

theorem loadPageData_fallback:
  "(pageContent = None \<or> pageContent = Some [] \<longrightarrow> loadPageData parse pageContent False = []) \<and>
   (s \<noteq> [] \<and> parse s = None \<longrightarrow> loadPageData parse (Some s) loadThrows = [fallbackBlock s]) \<and>
   (s \<noteq> [] \<and> parse s = Some v \<longrightarrow>
      loadPageData parse (Some s) False = (case v of JArr xs \<Rightarrow> xs | _ \<Rightarrow> [])) \<and>
   block_of_json (fallbackBlock s) =
     Some \<lparr>blockId = ''block-1'', blockType = Text,
            content = JObj [(''text'', JStr s), (''format'', JStr ''paragraph'')], position = 0\<rparr>"
  using block_of_json_fallbackBlock [of s]
  by (auto simp: loadPageData_def)

theorem loadPageData_fallback_witness:
  "''# Hello'' \<noteq> [] \<and> JSON_parse ''# Hello'' = None \<and>
   loadPageData JSON_parse (Some ''# Hello'') False = [fallbackBlock ''# Hello''] \<and>
   ''[1]'' \<noteq> [] \<and> JSON_parse ''[1]'' = Some (JArr [JNum 1]) \<and>
   loadPageData JSON_parse (Some ''[1]'') False = [JNum 1] \<and>
   loadPageData JSON_parse (Some []) False = []"
proof -
  have p: "JSON_parse ''# Hello'' = None" "JSON_parse ''[1]'' = Some (JArr [JNum 1])"
    by code_simp+
  from loadPageData_fallback [of "Some []" JSON_parse "''# Hello''" False "JNull"]
    loadPageData_fallback [of "Some []" JSON_parse "''[1]''" False "JArr [JNum 1]"] p
  show ?thesis by simp
qed

text \<open>
  So the result is not one text block with empty content in these cases: the empty
  string and \<open>null\<close> load as no block at all, and text that is not JSON comes back as
  the text of the block.
\<close>

theorem loadPageData_counterexample:
  "loadPageData JSON_parse (Some '''') False = [] \<and>
   loadPageData JSON_parse None False = [] \<and>
   loadPageData JSON_parse (Some ''# Hello'') False = [fallbackBlock ''# Hello''] \<and>
   block_of_json (fallbackBlock ''# Hello'') =
     Some \<lparr>blockId = ''block-1'', blockType = Text,
            content = JObj [(''text'', JStr ''# Hello''), (''format'', JStr ''paragraph'')],
            position = 0\<rparr>"
  by code_simp

end
